theory Spec2Isabelle
  imports Main "HOL-Library.Sublist"
begin

unbundle bit_operations_syntax

section \<open>The two-phase crawler \<^verbatim>\<open>two_phase_dir_first.py\<close>\<close>

text \<open>
  The program walks a directory tree in two phases. Phase 1 (\<^verbatim>\<open>dir_worker\<close>) discovers
  directories and appends their relative paths, NUL-terminated, to the Directory Ledger
  (\<^verbatim>\<open>--dirs-out\<close>). Phase 2 reads the Ledger back, lists the regular files of every
  recorded directory (\<^verbatim>\<open>file_worker\<close>) and appends each relative file path to the manifest
  or to one of the shard files, chosen by \<^verbatim>\<open>choose_out\<close>.

  Conventions of the embedding.
  \<^item> A Python \<^verbatim>\<open>str\<close> is represented by its UTF-8 \<^verbatim>\<open>surrogatepass\<close> byte sequence, a
    \<^typ>\<open>string\<close> whose characters are bytes. Comparison and concatenation of \<^verbatim>\<open>str\<close>
    values are comparison and concatenation of these sequences, \<^verbatim>\<open>encode\<close> is the
    identity on the representation and \<^verbatim>\<open>decode\<close> checks that the bytes are a valid
    sequence.
  \<^item> Paths follow \<^verbatim>\<open>posixpath\<close>: the separator is \<^verbatim>\<open>/\<close>.
  \<^item> The operating system is a parameter (\<open>host\<close>): what \<^verbatim>\<open>os.scandir\<close> returns for a
    path, how each entry classifies, and the digest function of \<^verbatim>\<open>hashlib\<close>.
  \<^item> Every exception the worker bodies can meet is an \<^verbatim>\<open>OSError\<close>; the type \<open>os_error\<close>
    holds them, and the handlers \<^verbatim>\<open>except (PermissionError, OSError)\<close> catch all of it.
  \<^item> Output files are unbuffered in the model: a \<^verbatim>\<open>write\<close> reaches the device at the
    call and is accepted or refused there; \<^verbatim>\<open>flush\<close> and \<^verbatim>\<open>close\<close> have nothing left
    to write. The Ledger and the outputs are different files, outside the tree.
  \<^item> Each worker pool is run as one worker that serves its queue in FIFO order; the
    capacity of the queues (\<^verbatim>\<open>--maxq\<close>) and the number of threads are not modelled. The
    effects of a run are recorded, in order, in the \<open>log\<close> of the state.
\<close>

subsection \<open>Bytes, strings and errors\<close>

abbreviation NUL :: char where
  "NUL \<equiv> CHR 0x00"

abbreviation sep :: char where
  "sep \<equiv> CHR ''/''"

datatype os_error = PermissionError | FileNotFoundError | OSError

datatype error = Raised os_error | UnicodeDecodeError | TypeError | SystemExit int

definition cont_byte :: "char \<Rightarrow> bool" where
  "cont_byte c = (0x80 \<le> (of_char c :: nat) \<and> (of_char c :: nat) \<le> 0xBF)"

definition byte_in :: "nat \<Rightarrow> nat \<Rightarrow> char \<Rightarrow> bool" where
  "byte_in lo hi c = (lo \<le> (of_char c :: nat) \<and> (of_char c :: nat) \<le> hi)"

text \<open>
  The byte sequences the UTF-8 decoder accepts with the \<^verbatim>\<open>surrogatepass\<close> handler: the
  well-formed sequences of one to four bytes, and the three-byte forms of the surrogates
  (lead byte \<^verbatim>\<open>ED\<close>, second byte \<^verbatim>\<open>A0..BF\<close>), which the strict decoder alone refuses.
\<close>

fun utf8_ok :: "string \<Rightarrow> bool" where
  "utf8_ok [] = True"
| "utf8_ok (c # cs) =
     (if byte_in 0x00 0x7F c then utf8_ok cs
      else if byte_in 0xC2 0xDF c then
        (case cs of c1 # r \<Rightarrow> cont_byte c1 \<and> utf8_ok r | _ \<Rightarrow> False)
      else if byte_in 0xE0 0xE0 c then
        (case cs of c1 # c2 # r \<Rightarrow> byte_in 0xA0 0xBF c1 \<and> cont_byte c2 \<and> utf8_ok r | _ \<Rightarrow> False)
      else if byte_in 0xE1 0xEF c then
        (case cs of c1 # c2 # r \<Rightarrow> cont_byte c1 \<and> cont_byte c2 \<and> utf8_ok r | _ \<Rightarrow> False)
      else if byte_in 0xF0 0xF0 c then
        (case cs of c1 # c2 # c3 # r \<Rightarrow>
           byte_in 0x90 0xBF c1 \<and> cont_byte c2 \<and> cont_byte c3 \<and> utf8_ok r | _ \<Rightarrow> False)
      else if byte_in 0xF1 0xF3 c then
        (case cs of c1 # c2 # c3 # r \<Rightarrow>
           cont_byte c1 \<and> cont_byte c2 \<and> cont_byte c3 \<and> utf8_ok r | _ \<Rightarrow> False)
      else if byte_in 0xF4 0xF4 c then
        (case cs of c1 # c2 # c3 # r \<Rightarrow>
           byte_in 0x80 0x8F c1 \<and> cont_byte c2 \<and> cont_byte c3 \<and> utf8_ok r | _ \<Rightarrow> False)
      else False)"

definition encode :: "string \<Rightarrow> string" where
  \<comment> \<open>\<^verbatim>\<open>s.encode("utf-8", "surrogatepass")\<close>, on the representation\<close>
  "encode s = s"

definition decode :: "string \<Rightarrow> error + string" where
  \<comment> \<open>\<^verbatim>\<open>b.decode("utf-8", "surrogatepass")\<close>\<close>
  "decode b = (if utf8_ok b then Inr b else Inl UnicodeDecodeError)"

fun from_bytes_little :: "string \<Rightarrow> nat" where
  \<comment> \<open>\<^verbatim>\<open>int.from_bytes(h, "little")\<close>\<close>
  "from_bytes_little [] = 0"
| "from_bytes_little (c # cs) = of_char c + 256 * from_bytes_little cs"

subsection \<open>Files\<close>

text \<open>
  A file is its bytes and the number of bytes its device still accepts (\<open>None\<close>: no
  bound). A write that does not fit is refused as a whole with \<^verbatim>\<open>OSError\<close> and leaves the
  file as it was.
\<close>

record fileobj =
  content :: string
  room :: "nat option"

datatype open_mode = AB | WB

definition fopen :: "open_mode \<Rightarrow> fileobj \<Rightarrow> fileobj" where
  \<comment> \<open>\<^verbatim>\<open>open(path, "ab")\<close> keeps the bytes of an existing file; \<^verbatim>\<open>"wb"\<close> would drop them\<close>
  "fopen m f = (case m of AB \<Rightarrow> f | WB \<Rightarrow> f\<lparr>content := []\<rparr>)"

definition fwrite :: "fileobj \<Rightarrow> string \<Rightarrow> os_error + fileobj" where
  "fwrite f b =
     (case room f of
        None \<Rightarrow> Inr (f\<lparr>content := content f @ b\<rparr>)
      | Some r \<Rightarrow>
          if length b \<le> r then Inr (f\<lparr>content := content f @ b, room := Some (r - length b)\<rparr>)
          else Inl OSError)"

definition fflush :: "fileobj \<Rightarrow> fileobj" where
  "fflush f = f"

record disk =
  dirs_nul :: fileobj
  manifest :: fileobj
  shard :: "nat \<Rightarrow> fileobj"

subsection \<open>The host: directory listings and the digest\<close>

text \<open>
  \<open>scandir\<close> gives the entries \<^verbatim>\<open>os.scandir\<close> yields for a path, or the error of the call.
  An iterator that fails after some entries is a listing that ends there: the outer
  handler of both workers passes, so the error itself changes nothing. Each entry carries
  the results of the three classification calls the program makes.
\<close>

record dirent =
  name :: string
  is_dir_follow :: "os_error + bool"
  is_dir_nofollow :: "os_error + bool"
  is_file_nofollow :: "os_error + bool"

record host =
  scandir :: "string \<Rightarrow> os_error + dirent list"
  isdir :: "string \<Rightarrow> bool"
  blake2b :: "nat \<Rightarrow> string \<Rightarrow> string"

subsection \<open>Paths (\<^verbatim>\<open>posixpath\<close>)\<close>

definition os_path_join :: "string \<Rightarrow> string \<Rightarrow> string" where
  "os_path_join a b =
     (if b \<noteq> [] \<and> hd b = sep then b
      else if a = [] \<or> last a = sep then a @ b
      else a @ [sep] @ b)"

fun split_sep :: "string \<Rightarrow> string list" where
  \<comment> \<open>\<^verbatim>\<open>s.split("/")\<close>\<close>
  "split_sep [] = [[]]"
| "split_sep (c # cs) =
     (if c = sep then [] # split_sep cs
      else (case split_sep cs of p # ps \<Rightarrow> (c # p) # ps | [] \<Rightarrow> [[c]]))"

text \<open>
  The loop of \<^verbatim>\<open>normpath\<close> over the components of a path that starts with a separator;
  \<open>new\<close> is \<^verbatim>\<open>new_comps\<close>. The program hands \<^verbatim>\<open>relpath\<close> absolute paths only (the root is
  the result of \<^verbatim>\<open>abspath\<close>, every other path is the root joined with entry names).
\<close>

fun norm_comps :: "string list \<Rightarrow> string list \<Rightarrow> string list" where
  "norm_comps [] new = new"
| "norm_comps (c # cs) new =
     (if c = [] \<or> c = ''.'' then norm_comps cs new
      else if c \<noteq> ''..'' \<or> (new \<noteq> [] \<and> last new = ''..'') then norm_comps cs (new @ [c])
      else if new \<noteq> [] then norm_comps cs (butlast new)
      else norm_comps cs new)"

definition abs_comps :: "string \<Rightarrow> string list" where
  \<comment> \<open>\<^verbatim>\<open>[x for x in abspath(p).split(sep) if x]\<close>, for an absolute \<open>p\<close>\<close>
  "abs_comps p = norm_comps (split_sep p) []"

fun commonprefix_len :: "string list \<Rightarrow> string list \<Rightarrow> nat" where
  "commonprefix_len (x # xs) (y # ys) = (if x = y then Suc (commonprefix_len xs ys) else 0)"
| "commonprefix_len _ _ = 0"

definition join_all :: "string list \<Rightarrow> string" where
  \<comment> \<open>\<^verbatim>\<open>join(*rel_list)\<close>, on a list that is not empty\<close>
  "join_all cs = foldl os_path_join (hd cs) (tl cs)"

definition os_path_relpath :: "string \<Rightarrow> string \<Rightarrow> string" where
  "os_path_relpath p start =
     (let start_list = abs_comps start;
          path_list = abs_comps p;
          i = commonprefix_len start_list path_list;
          rel_list = replicate (length start_list - i) ''..'' @ drop i path_list
      in if rel_list = [] then ''.'' else join_all rel_list)"

definition relpath :: "string \<Rightarrow> string \<Rightarrow> string" where
  "relpath rt p = (let r = os_path_relpath p rt in if r = ''.'' then ''.'' else r)"

subsection \<open>Arguments, state and the log of effects\<close>

datatype mode = RoundRobin | Hash | ByDir

text \<open>
  The parsed arguments the core reads. \<open>root\<close> is the local \<^verbatim>\<open>root\<close> of \<^verbatim>\<open>main\<close>, that is
  \<^verbatim>\<open>os.path.abspath(args.root)\<close>.
\<close>

record args =
  root :: string
  out_manifest :: "string option"
  outdir :: "string option"
  shards :: int
  mode :: mode
  exclude :: "string list"
  follow_symlinks :: bool

datatype event =
    Ledger_write string
  | Dir_put string
  | Dir_scan string
  | Workers1_joined
  | Ledger_closed
  | Outs_opened nat
  | Ledger_reopened
  | Dir_in_put string
  | File_scan string
  | Out_write nat string
  | Outs_closed

text \<open>
  The variables the closures of \<^verbatim>\<open>main\<close> share, and the log: \<open>Ledger_write r\<close> for a
  record written by \<^verbatim>\<open>emit_dir\<close>, \<open>Dir_put p\<close> for \<^verbatim>\<open>dir_q.put(p)\<close>, \<open>Dir_scan d\<close> and
  \<open>File_scan d\<close> for the calls of \<^verbatim>\<open>os.scandir\<close>, \<open>Out_write i r\<close> for a record written
  to \<^verbatim>\<open>outs[i]\<close>, \<open>Dir_in_put d\<close> for \<^verbatim>\<open>dir_in_q.put(d)\<close>, and one event for each step of
  \<^verbatim>\<open>main\<close> between and after the phases.
\<close>

record state =
  dirs_file :: fileobj
  dirs_emitted :: nat
  dir_q :: "string list"
  outs :: "fileobj list"
  rr_counter :: nat
  files_emitted :: nat
  log :: "event list"

subsection \<open>Phase 1: \<^verbatim>\<open>emit_dir\<close> and \<^verbatim>\<open>dir_worker\<close>\<close>

definition emit_dir :: "string \<Rightarrow> state \<Rightarrow> os_error + state" where
  "emit_dir rel_dir st =
     (case fwrite (dirs_file st) (encode rel_dir @ [NUL]) of
        Inl e \<Rightarrow> Inl e
      | Inr f \<Rightarrow>
          (let n = dirs_emitted st + 1
           in Inr (st\<lparr>dirs_file := (if n AND 0xFFFF = 0 then fflush f else f),
                       dirs_emitted := n,
                       log := log st @ [Ledger_write rel_dir]\<rparr>)))"

text \<open>
  The body of \<^verbatim>\<open>for de in it\<close> in \<^verbatim>\<open>dir_worker\<close>, for the directory \<open>d\<close> being scanned.
  \<^verbatim>\<open>de.path\<close> is \<open>d\<close> joined with the name. An \<^verbatim>\<open>OSError\<close> of \<^verbatim>\<open>de.is_dir\<close> or of
  \<^verbatim>\<open>emit_dir\<close> reaches the inner handler, which goes on with the next entry.
\<close>

definition dir_worker_entry :: "args \<Rightarrow> string \<Rightarrow> dirent \<Rightarrow> state \<Rightarrow> state" where
  "dir_worker_entry a d de st =
     (case (if follow_symlinks a then is_dir_follow de else is_dir_nofollow de) of
        Inl e \<Rightarrow> st
      | Inr isd \<Rightarrow>
          if isd then
            (if name de \<in> set (exclude a) then st
             else
               (case emit_dir (relpath (root a) (os_path_join d (name de))) st of
                  Inl e \<Rightarrow> st
                | Inr st' \<Rightarrow>
                    st'\<lparr>dir_q := dir_q st' @ [os_path_join d (name de)],
                        log := log st' @ [Dir_put (os_path_join d (name de))]\<rparr>))
          else st)"

text \<open>One item \<open>d\<close> taken from \<^verbatim>\<open>dir_q\<close>: the body of \<^verbatim>\<open>while True\<close> in \<^verbatim>\<open>dir_worker\<close>.\<close>

definition dir_worker_item :: "args \<Rightarrow> host \<Rightarrow> string \<Rightarrow> state \<Rightarrow> state" where
  "dir_worker_item a h d st =
     (let st1 = st\<lparr>log := log st @ [Dir_scan d]\<rparr>
      in case scandir h d of
           Inl e \<Rightarrow> st1
         | Inr des \<Rightarrow> fold (dir_worker_entry a d) des st1)"

text \<open>
  The pool until \<^verbatim>\<open>dir_q.join()\<close> returns: items are taken from the front of the queue
  until it is empty. The tree may be unbounded (a symlink cycle with
  \<^verbatim>\<open>--follow-symlinks\<close>), so the loop has fuel: \<open>None\<close> when the fuel runs out first.
\<close>

fun dir_worker :: "nat \<Rightarrow> args \<Rightarrow> host \<Rightarrow> state \<Rightarrow> state option" where
  "dir_worker fuel a h st =
     (case dir_q st of
        [] \<Rightarrow> Some st
      | d # q \<Rightarrow>
          (case fuel of
             0 \<Rightarrow> None
           | Suc n \<Rightarrow> dir_worker n a h (dir_worker_item a h d (st\<lparr>dir_q := q\<rparr>))))"

subsection \<open>Phase 2: \<^verbatim>\<open>open_outputs\<close>, \<^verbatim>\<open>choose_out\<close> and \<^verbatim>\<open>file_worker\<close>\<close>

definition open_outputs :: "string option \<Rightarrow> string option \<Rightarrow> int \<Rightarrow> disk \<Rightarrow> error + fileobj list" where
  "open_outputs om od n dk =
     (if n > 0 then Inr (map (\<lambda>i. fopen AB (shard dk i)) [0..<nat n])
      else (case om of
              None \<Rightarrow> Inl TypeError
            | Some p \<Rightarrow>
                if p = [] then Inl (Raised FileNotFoundError)
                else Inr [fopen AB (manifest dk)]))"

definition choose_out :: "args \<Rightarrow> host \<Rightarrow> string \<Rightarrow> string \<Rightarrow> state \<Rightarrow> nat \<times> state" where
  "choose_out a h full_rel_path dir_rel st =
     (if length (outs st) = 1 then (0, st)
      else if mode a = RoundRobin then
        (rr_counter st mod length (outs st), st\<lparr>rr_counter := rr_counter st + 1\<rparr>)
      else
        (let hh = (if mode a = ByDir then blake2b h 4 (encode dir_rel)
                   else blake2b h 4 (encode full_rel_path))
         in (from_bytes_little hh mod length (outs st), st)))"

text \<open>
  The body of \<^verbatim>\<open>for de in it\<close> in \<^verbatim>\<open>file_worker\<close>. The index \<^verbatim>\<open>choose_out\<close> returns is below
  \<^verbatim>\<open>len(outs)\<close>, which \<^verbatim>\<open>open_outputs\<close> makes at least 1.
\<close>

definition file_worker_entry :: "args \<Rightarrow> host \<Rightarrow> string \<Rightarrow> dirent \<Rightarrow> state \<Rightarrow> state" where
  "file_worker_entry a h dir_rel de st =
     (case is_file_nofollow de of
        Inl e \<Rightarrow> st
      | Inr isf \<Rightarrow>
          if isf then
            (let rel_file = (if dir_rel = ''.'' then name de else dir_rel @ [sep] @ name de);
                 (idx, st1) = choose_out a h rel_file dir_rel st;
                 b = encode rel_file @ [NUL]
             in case fwrite (outs st1 ! idx) b of
                  Inl e \<Rightarrow> st1
                | Inr f \<Rightarrow>
                    (let n = files_emitted st1 + 1;
                         os = (outs st1)[idx := f]
                     in st1\<lparr>outs := (if n AND 0xFFFFF = 0 then map fflush os else os),
                            files_emitted := n,
                            log := log st1 @ [Out_write idx rel_file]\<rparr>))
          else st)"

definition file_worker_item :: "args \<Rightarrow> host \<Rightarrow> string \<Rightarrow> state \<Rightarrow> state" where
  "file_worker_item a h dir_rel st =
     (let dir_abs = (if dir_rel = ''.'' then root a else os_path_join (root a) dir_rel);
          st1 = st\<lparr>log := log st @ [File_scan dir_abs]\<rparr>
      in case scandir h dir_abs of
           Inl e \<Rightarrow> st1
         | Inr des \<Rightarrow> fold (file_worker_entry a h dir_rel) des st1)"

definition file_worker :: "args \<Rightarrow> host \<Rightarrow> string list \<Rightarrow> state \<Rightarrow> state" where
  \<comment> \<open>the pool until \<^verbatim>\<open>dir_in_q.join()\<close> returns, on the items put in the queue\<close>
  "file_worker a h ds st = fold (file_worker_item a h) ds st"

subsection \<open>Reading the Ledger back, and \<^verbatim>\<open>main\<close>\<close>

definition index_from :: "string \<Rightarrow> char \<Rightarrow> nat \<Rightarrow> nat option" where
  \<comment> \<open>\<^verbatim>\<open>buf.index(c, start)\<close>; \<open>None\<close> is \<^verbatim>\<open>ValueError\<close>\<close>
  "index_from buf c start =
     (if c \<in> set (drop start buf)
      then Some (start + length (takeWhile (\<lambda>x. x \<noteq> c) (drop start buf)))
      else None)"

text \<open>
  The inner \<^verbatim>\<open>while True\<close> of the reader: the records found in \<open>buf\<close> from \<open>start\<close> on,
  each decoded and an empty one replaced by \<^verbatim>\<open>"."\<close>, and the rest of the buffer
  (\<^verbatim>\<open>buf[start:]\<close>) once no NUL is left. A record that does not decode raises.
\<close>

function scan_buf :: "string \<Rightarrow> nat \<Rightarrow> error + (string list \<times> string)" where
  "scan_buf buf start =
     (case index_from buf NUL start of
        None \<Rightarrow> Inr ([], drop start buf)
      | Some i \<Rightarrow>
          (case decode (take (i - start) (drop start buf)) of
             Inl e \<Rightarrow> Inl e
           | Inr s \<Rightarrow>
               (case scan_buf buf (i + 1) of
                  Inl e \<Rightarrow> Inl e
                | Inr (ds, rest) \<Rightarrow> Inr ((if s = [] then ''.'' else s) # ds, rest))))"
  by pat_completeness auto
termination
proof (relation "measure (\<lambda>(buf, start). length buf - start)")
  show "wf (measure (\<lambda>(buf, start). length buf - start))"
    by simp
next
  fix buf :: string and start i :: nat and s :: string
  assume a: "index_from buf NUL start = Some i"
  let ?r = "drop start buf"
  from a have m: "NUL \<in> set ?r"
    by (simp add: index_from_def split: if_splits)
  from a have i: "i = start + length (takeWhile (\<lambda>x. x \<noteq> NUL) ?r)"
    by (simp add: index_from_def split: if_splits)
  have "NUL \<in> set xs \<Longrightarrow> length (takeWhile (\<lambda>x. x \<noteq> NUL) xs) < length xs" for xs :: string
    by (induction xs) auto
  from this [OF m] have "length (takeWhile (\<lambda>x. x \<noteq> NUL) ?r) < length ?r" .
  then have "start \<le> i \<and> i < length buf"
    using i by simp
  then show "((buf, i + 1), (buf, start)) \<in> measure (\<lambda>(buf, start). length buf - start)"
    by auto
qed

text \<open>
  The outer \<^verbatim>\<open>while True\<close>: \<open>f\<close> is what is left to read of the file, \<open>csz\<close> the size
  asked of \<^verbatim>\<open>f.read\<close>. The result is the list of directories put in \<^verbatim>\<open>dir_in_q\<close>. What is
  left in \<open>buf\<close> at the end of the file is dropped.
\<close>

function read_chunks :: "nat \<Rightarrow> string \<Rightarrow> string \<Rightarrow> error + string list" where
  "read_chunks csz f buf =
     (let chunk = take csz f
      in if chunk = [] then Inr []
         else
           (case scan_buf (buf @ chunk) 0 of
              Inl e \<Rightarrow> Inl e
            | Inr (ds, buf') \<Rightarrow>
                (case read_chunks csz (drop csz f) buf' of
                   Inl e \<Rightarrow> Inl e
                 | Inr ds' \<Rightarrow> Inr (ds @ ds'))))"
  by pat_completeness auto
termination
  by (relation "measure (\<lambda>(csz, f, buf). length f)") auto

definition read_ledger :: "fileobj \<Rightarrow> error + string list" where
  "read_ledger f = read_chunks (1024 * 1024) (content f) []"

text \<open>Lines 98 to 190 of \<^verbatim>\<open>main\<close>: phase 2, entered once the Ledger is closed.\<close>

definition main_phase2 :: "args \<Rightarrow> host \<Rightarrow> disk \<Rightarrow> state \<Rightarrow> error + state" where
  "main_phase2 a h dk st =
     (case open_outputs (out_manifest a) (outdir a) (shards a) dk of
        Inl e \<Rightarrow> Inl e
      | Inr os \<Rightarrow>
          (let st3 = st\<lparr>outs := os, rr_counter := 0, files_emitted := 0,
                        log := log st @ [Outs_opened (length os)]\<rparr>
           in case read_ledger (dirs_file st3) of
                Inl e \<Rightarrow> Inl e
              | Inr ds \<Rightarrow>
                  (let st4 = st3\<lparr>log := log st3 @ Ledger_reopened # map Dir_in_put ds\<rparr>;
                       st5 = file_worker a h ds st4
                   in Inr (st5\<lparr>outs := map fflush (outs st5),
                               log := log st5 @ [Outs_closed]\<rparr>))))"

definition main :: "nat \<Rightarrow> args \<Rightarrow> host \<Rightarrow> disk \<Rightarrow> (error + state) option" where
  "main fuel a h dk =
     (if \<not> isdir h (root a) then Some (Inl (SystemExit 2))
      else if shards a = 0 \<and> (out_manifest a = None \<or> out_manifest a = Some [])
        then Some (Inl (SystemExit 2))
      else if shards a > 0 \<and> (outdir a = None \<or> outdir a = Some [])
        then Some (Inl (SystemExit 2))
      else
        (let st0 = \<lparr>dirs_file = fopen AB (dirs_nul dk), dirs_emitted = 0, dir_q = [],
                     outs = [], rr_counter = 0, files_emitted = 0, log = []\<rparr>
         in case emit_dir ''.'' st0 of
              Inl e \<Rightarrow> Some (Inl (Raised e))
            | Inr st1 \<Rightarrow>
                (case dir_worker fuel a h
                        (st1\<lparr>dir_q := [root a], log := log st1 @ [Dir_put (root a)]\<rparr>) of
                   None \<Rightarrow> None
                 | Some st2 \<Rightarrow>
                     Some (main_phase2 a h dk
                             (st2\<lparr>dirs_file := fflush (dirs_file st2),
                                  log := log st2 @ [Workers1_joined, Ledger_closed]\<rparr>)))))"

text \<open>The files a run leaves behind, for the next run to find.\<close>

definition disk_after :: "args \<Rightarrow> disk \<Rightarrow> state \<Rightarrow> disk" where
  "disk_after a dk st =
     dk\<lparr>dirs_nul := dirs_file st,
        manifest := (if shards a > 0 then manifest dk else outs st ! 0),
        shard := (\<lambda>i. if shards a > 0 \<and> i < nat (shards a) then outs st ! i else shard dk i)\<rparr>"

subsection \<open>Reading the log and the files\<close>

text \<open>
  The records \<^verbatim>\<open>emit_dir\<close> wrote and the records written to \<^verbatim>\<open>outs[i]\<close>, in the order of
  the log, and the bytes a list of records takes in a file.
\<close>

fun ledger_records :: "event list \<Rightarrow> string list" where
  "ledger_records [] = []"
| "ledger_records (Ledger_write r # es) = r # ledger_records es"
| "ledger_records (e # es) = ledger_records es"

fun out_records :: "nat \<Rightarrow> event list \<Rightarrow> string list" where
  "out_records i [] = []"
| "out_records i (Out_write j r # es) =
     (if j = i then r # out_records i es else out_records i es)"
| "out_records i (e # es) = out_records i es"

definition nul_terminated :: "string list \<Rightarrow> string" where
  "nul_terminated rs = concat (map (\<lambda>r. encode r @ [NUL]) rs)"

text \<open>
  Splitting bytes on NUL, as the spec words it: \<open>split_on_NUL cur bs\<close> are the records
  that end in \<open>bs\<close>, the first one continuing \<open>cur\<close>; \<open>unterminated cur bs\<close> is what follows
  the last NUL. A file holds whole records when nothing follows its last NUL.
\<close>

fun split_on_NUL :: "string \<Rightarrow> string \<Rightarrow> string list" where
  "split_on_NUL cur [] = []"
| "split_on_NUL cur (c # cs) =
     (if c = NUL then cur # split_on_NUL [] cs else split_on_NUL (cur @ [c]) cs)"

fun unterminated :: "string \<Rightarrow> string \<Rightarrow> string" where
  "unterminated cur [] = cur"
| "unterminated cur (c # cs) =
     (if c = NUL then unterminated [] cs else unterminated (cur @ [c]) cs)"

definition whole_records :: "string \<Rightarrow> bool" where
  "whole_records bs = (unterminated [] bs = [])"

text \<open>The reader's treatment of one record after another: decode, and \<^verbatim>\<open>or "."\<close>.\<close>

fun decode_records :: "string list \<Rightarrow> error + string list" where
  "decode_records [] = Inr []"
| "decode_records (r # rs) =
     (case decode r of
        Inl e \<Rightarrow> Inl e
      | Inr s \<Rightarrow>
          (case decode_records rs of
             Inl e \<Rightarrow> Inl e
           | Inr ds \<Rightarrow> Inr ((if s = [] then ''.'' else s) # ds)))"

text \<open>
  What the operating system guarantees of an entry name: it is not empty, holds neither a
  separator nor a NUL, and is neither \<^verbatim>\<open>.\<close> nor \<^verbatim>\<open>..\<close>.
\<close>

definition wf_name :: "string \<Rightarrow> bool" where
  "wf_name n = (n \<noteq> [] \<and> sep \<notin> set n \<and> NUL \<notin> set n \<and> n \<noteq> ''.'' \<and> n \<noteq> ''..'')"

definition wf_host :: "host \<Rightarrow> bool" where
  "wf_host h = (\<forall>p des. scandir h p = Inr des \<longrightarrow> (\<forall>de \<in> set des. wf_name (name de)))"

definition under_root :: "args \<Rightarrow> string list \<Rightarrow> string" where
  \<comment> \<open>the root joined with entry names, one after the other, as \<^verbatim>\<open>de.path\<close> is built\<close>
  "under_root a ns = foldl os_path_join (root a) ns"

definition unlimited :: "fileobj \<Rightarrow> bool" where
  "unlimited f = (room f = None)"

subsection \<open>Example inputs\<close>

definition ent_dir :: "string \<Rightarrow> dirent" where
  "ent_dir n = \<lparr>name = n, is_dir_follow = Inr True, is_dir_nofollow = Inr True,
               is_file_nofollow = Inr False\<rparr>"

definition ent_file :: "string \<Rightarrow> dirent" where
  "ent_file n = \<lparr>name = n, is_dir_follow = Inr False, is_dir_nofollow = Inr False,
                is_file_nofollow = Inr True\<rparr>"

definition ent_denied :: "string \<Rightarrow> dirent" where
  "ent_denied n = \<lparr>name = n, is_dir_follow = Inl PermissionError,
                  is_dir_nofollow = Inl PermissionError,
                  is_file_nofollow = Inl PermissionError\<rparr>"

text \<open>
  A tree \<^verbatim>\<open>/r\<close> with the directories \<^verbatim>\<open>a\<close> (holding the file \<^verbatim>\<open>x\<close>) and \<^verbatim>\<open>b\<close> (holding the
  file \<^verbatim>\<open>y\<close>), the file \<^verbatim>\<open>f\<close>, and an entry \<^verbatim>\<open>z\<close> that cannot be classified. The digest
  of the example pads or cuts its input to the size asked.
\<close>

definition ex_host :: host where
  "ex_host =
     \<lparr>scandir = (\<lambda>p. if p = ''/r'' then Inr [ent_denied ''z'', ent_dir ''a'', ent_dir ''b'',
                                              ent_file ''f'']
                      else if p = ''/r/a'' then Inr [ent_file ''x'']
                      else if p = ''/r/b'' then Inr [ent_file ''y'']
                      else Inl FileNotFoundError),
      isdir = (\<lambda>p. p = ''/r''),
      blake2b = (\<lambda>n s. take n (s @ ''0000''))\<rparr>"

definition ex_args :: args where
  "ex_args = \<lparr>root = ''/r'', out_manifest = None, outdir = Some ''out'', shards = 2,
              mode = ByDir, exclude = [''b''], follow_symlinks = False\<rparr>"

definition ex_manifest_args :: args where
  "ex_manifest_args = \<lparr>root = ''/r'', out_manifest = Some ''m'', outdir = None, shards = 0,
              mode = ByDir, exclude = [''b''], follow_symlinks = False\<rparr>"

definition new_file :: fileobj where
  "new_file = \<lparr>content = [], room = None\<rparr>"

definition ex_disk :: disk where
  "ex_disk = \<lparr>dirs_nul = new_file, manifest = new_file, shard = (\<lambda>i. new_file)\<rparr>"

definition ex_state :: state where
  "ex_state = \<lparr>dirs_file = new_file, dirs_emitted = 0, dir_q = [], outs = [new_file, new_file],
               rr_counter = 0, files_emitted = 0, log = []\<rparr>"

text \<open>The events of each phase, and the directory \<^verbatim>\<open>file_worker\<close> scans for a record.\<close>

fun phase1_event :: "event \<Rightarrow> bool" where
  "phase1_event (Ledger_write r) = True"
| "phase1_event (Dir_put p) = True"
| "phase1_event (Dir_scan d) = True"
| "phase1_event e = False"

fun phase2_event :: "event \<Rightarrow> bool" where
  "phase2_event (Outs_opened n) = True"
| "phase2_event Ledger_reopened = True"
| "phase2_event (Dir_in_put d) = True"
| "phase2_event (File_scan d) = True"
| "phase2_event (Out_write i r) = True"
| "phase2_event Outs_closed = True"
| "phase2_event e = False"

fun dirs_in_put :: "event list \<Rightarrow> string list" where
  "dirs_in_put [] = []"
| "dirs_in_put (Dir_in_put d # es) = d # dirs_in_put es"
| "dirs_in_put (e # es) = dirs_in_put es"

definition dir_abs :: "args \<Rightarrow> string \<Rightarrow> string" where
  "dir_abs a dir_rel = (if dir_rel = ''.'' then root a else os_path_join (root a) dir_rel)"

definition rel_file :: "string \<Rightarrow> string \<Rightarrow> string" where
  "rel_file dir_rel n = (if dir_rel = ''.'' then n else dir_rel @ [sep] @ n)"

text \<open>
  The names some listing of the host holds, and the lists of names phase 1 may follow from
  the root: listed names outside the exclusion set.
\<close>

definition listed :: "host \<Rightarrow> string \<Rightarrow> bool" where
  "listed h n = (\<exists>p des de. scandir h p = Inr des \<and> de \<in> set des \<and> name de = n)"

definition admitted :: "args \<Rightarrow> host \<Rightarrow> string list \<Rightarrow> bool" where
  "admitted a h ns = (\<forall>n \<in> set ns. listed h n \<and> n \<notin> set (exclude a))"

text \<open>
  What phase 1 may log: the record \<^verbatim>\<open>"."\<close> or the relative path of the root joined with
  admitted names, and such joined paths in the queue and in the scans.
\<close>

fun clean_event :: "args \<Rightarrow> host \<Rightarrow> event \<Rightarrow> bool" where
  "clean_event a h (Ledger_write r) =
     (r = ''.'' \<or> (\<exists>ns. ns \<noteq> [] \<and> admitted a h ns \<and> r = relpath (root a) (under_root a ns)))"
| "clean_event a h (Dir_put p) = (\<exists>ns. admitted a h ns \<and> p = under_root a ns)"
| "clean_event a h (Dir_scan p) = (\<exists>ns. admitted a h ns \<and> p = under_root a ns)"
| "clean_event a h e = True"

text \<open>
  Two states \<^verbatim>\<open>main\<close> passes through: the one the workers of phase 1 start from, once the
  seed record is in the file \<open>f\<close> and the root in the queue, and the one the workers of
  phase 2 start from, with the outputs \<open>os\<close> open and the directories \<open>ds\<close> read back.
\<close>

definition state_seeded :: "args \<Rightarrow> fileobj \<Rightarrow> state" where
  "state_seeded a f =
     \<lparr>dirs_file = f, dirs_emitted = 1, dir_q = [root a], outs = [], rr_counter = 0,
      files_emitted = 0, log = [Ledger_write ''.'', Dir_put (root a)]\<rparr>"

definition state_listing :: "state \<Rightarrow> fileobj list \<Rightarrow> string list \<Rightarrow> state" where
  "state_listing st os ds =
     st\<lparr>outs := os, rr_counter := 0, files_emitted := 0,
        log := log st @ [Workers1_joined, Ledger_closed, Outs_opened (length os), Ledger_reopened]
                 @ map Dir_in_put ds\<rparr>"

text \<open>
  The course of a run that returns \<open>st\<close>: the Ledger file \<open>f1\<close> after the seed record, the
  state \<open>st2\<close> when the workers of phase 1 have joined, the outputs \<open>os\<close> as opened, the
  directories \<open>ds\<close> read back, and the events \<open>p2\<close> of phase 2.
\<close>

definition course ::
  "nat \<Rightarrow> args \<Rightarrow> host \<Rightarrow> disk \<Rightarrow> state \<Rightarrow> fileobj \<Rightarrow> state \<Rightarrow> fileobj list \<Rightarrow> string list
     \<Rightarrow> event list \<Rightarrow> bool" where
  "course fuel a h dk st f1 st2 os ds p2 =
     (fwrite (dirs_nul dk) (''.'' @ [NUL]) = Inr f1
    \<and> dir_worker fuel a h (state_seeded a f1) = Some st2
    \<and> open_outputs (out_manifest a) (outdir a) (shards a) dk = Inr os
    \<and> read_ledger (dirs_file st2) = Inr ds
    \<and> st = (file_worker a h ds (state_listing st2 os ds))
              \<lparr>log := log (file_worker a h ds (state_listing st2 os ds)) @ [Outs_closed]\<rparr>
    \<and> content (dirs_file st2) = content (dirs_nul dk) @ nul_terminated (ledger_records (log st2))
    \<and> (\<forall>e \<in> set (log st2). phase1_event e)
    \<and> dir_q st2 = []
    \<and> dirs_file st = dirs_file st2
    \<and> dir_q st = []
    \<and> length (outs st) = length os
    \<and> (\<forall>i < length os. content (outs st ! i)
           = content (os ! i) @ nul_terminated (out_records i (log st)))
    \<and> log st = log st2 @ [Workers1_joined, Ledger_closed] @ p2
    \<and> (\<forall>e \<in> set p2. phase2_event e)
    \<and> dirs_in_put p2 = ds
    \<and> (\<forall>j. out_records j (log st) = out_records j p2))"

text \<open>A state with \<open>N\<close> outputs open, none on a device that refuses writes.\<close>

definition open_unlimited :: "nat \<Rightarrow> state \<Rightarrow> bool" where
  "open_unlimited N s = (length (outs s) = N \<and> (\<forall>f \<in> set (outs s). unlimited f))"

text \<open>What a run leaves in the Ledger and in the outputs when it returns.\<close>

definition outcome :: "(error + state) option \<Rightarrow> (error + string \<times> string list) option" where
  "outcome r = map_option (map_sum id (\<lambda>st. (content (dirs_file st), map content (outs st)))) r"


text \<open>The state the run on the example tree returns, with two shards and mode \<^verbatim>\<open>bydir\<close>.\<close>

definition ex_final :: state where
  "ex_final =
     \<lparr>dirs_file = \<lparr>content = ''.'' @ [NUL] @ ''a'' @ [NUL], room = None\<rparr>,
      dirs_emitted = 2, dir_q = [],
      outs = [\<lparr>content = ''f'' @ [NUL], room = None\<rparr>, \<lparr>content = ''a/x'' @ [NUL], room = None\<rparr>],
      rr_counter = 0, files_emitted = 2,
      log = [Ledger_write ''.'', Dir_put ''/r'', Dir_scan ''/r'', Ledger_write ''a'',
             Dir_put ''/r/a'', Dir_scan ''/r/a'', Workers1_joined, Ledger_closed,
             Outs_opened 2, Ledger_reopened, Dir_in_put ''.'', Dir_in_put ''a'',
             File_scan ''/r'', Out_write 0 ''f'', File_scan ''/r/a'', Out_write 1 ''a/x'',
             Outs_closed]\<rparr>"

text \<open>
  The disk a run finds when an earlier run, made without \<^verbatim>\<open>--exclude\<close>, left the record of
  \<^verbatim>\<open>b\<close> in the Ledger.
\<close>

definition ex_stale_disk :: disk where
  "ex_stale_disk = ex_disk\<lparr>dirs_nul := \<lparr>content = ''b'' @ [NUL], room = None\<rparr>\<rparr>"

text \<open>The state a second run returns when it starts on the files the first run left.\<close>

definition ex_rerun :: state where
  "ex_rerun =
     \<lparr>dirs_file = \<lparr>content = ''.'' @ [NUL] @ ''a'' @ [NUL] @ ''.'' @ [NUL] @ ''a'' @ [NUL],
                   room = None\<rparr>,
      dirs_emitted = 2, dir_q = [],
      outs = [\<lparr>content = ''f'' @ [NUL] @ ''f'' @ [NUL] @ ''f'' @ [NUL], room = None\<rparr>,
              \<lparr>content = ''a/x'' @ [NUL] @ ''a/x'' @ [NUL] @ ''a/x'' @ [NUL], room = None\<rparr>],
      rr_counter = 0, files_emitted = 4,
      log = [Ledger_write ''.'', Dir_put ''/r'', Dir_scan ''/r'', Ledger_write ''a'',
             Dir_put ''/r/a'', Dir_scan ''/r/a'', Workers1_joined, Ledger_closed,
             Outs_opened 2, Ledger_reopened, Dir_in_put ''.'', Dir_in_put ''a'',
             Dir_in_put ''.'', Dir_in_put ''a'',
             File_scan ''/r'', Out_write 0 ''f'', File_scan ''/r/a'', Out_write 1 ''a/x'',
             File_scan ''/r'', Out_write 0 ''f'', File_scan ''/r/a'', Out_write 1 ''a/x'',
             Outs_closed]\<rparr>"

section \<open>Properties\<close>

subsection \<open>Simplified forms of the steps\<close>

text \<open>\<^verbatim>\<open>flush\<close> changes nothing in the model, so the periodic flushes drop out.\<close>

declare dir_worker.simps [simp del]

lemma fflush_id [simp]: "fflush f = f"
  by (simp add: fflush_def)

lemma map_fflush [simp]: "map fflush fs = fs"
  by (induction fs) auto

lemma emit_dir_simp:
  "emit_dir r st =
     (case fwrite (dirs_file st) (r @ [NUL]) of
        Inl e \<Rightarrow> Inl e
      | Inr f \<Rightarrow> Inr (st\<lparr>dirs_file := f, dirs_emitted := dirs_emitted st + 1,
                         log := log st @ [Ledger_write r]\<rparr>))"
  by (simp add: emit_dir_def encode_def Let_def split: sum.splits)

lemma file_worker_entry_simp:
  "file_worker_entry a h dir_rel de st =
     (case is_file_nofollow de of
        Inl e \<Rightarrow> st
      | Inr isf \<Rightarrow>
          if isf then
            (let rel_file = (if dir_rel = ''.'' then name de else dir_rel @ [sep] @ name de);
                 idx = fst (choose_out a h rel_file dir_rel st);
                 st1 = snd (choose_out a h rel_file dir_rel st)
             in case fwrite (outs st1 ! idx) (rel_file @ [NUL]) of
                  Inl e \<Rightarrow> st1
                | Inr f \<Rightarrow>
                    st1\<lparr>outs := (outs st1)[idx := f],
                        files_emitted := files_emitted st1 + 1,
                        log := log st1 @ [Out_write idx rel_file]\<rparr>)
          else st)"
  by (simp add: file_worker_entry_def encode_def Let_def split_beta split: sum.splits)



subsection \<open>The reader splits the Ledger on NUL\<close>

declare scan_buf.simps [simp del]
declare read_chunks.simps [simp del]

lemma split_no_NUL:
  "NUL \<notin> set xs \<Longrightarrow> split_on_NUL cur xs = [] \<and> unterminated cur xs = cur @ xs"
  by (induction xs arbitrary: cur) auto

lemma split_upto_NUL:
  "NUL \<notin> set tw \<Longrightarrow> split_on_NUL cur (tw @ NUL # rest) = (cur @ tw) # split_on_NUL [] rest"
  by (induction tw arbitrary: cur) auto

lemma unterminated_upto_NUL:
  "NUL \<notin> set tw \<Longrightarrow> unterminated cur (tw @ NUL # rest) = unterminated [] rest"
  by (induction tw arbitrary: cur) auto

lemma split_append:
  "split_on_NUL cur (xs @ ys) = split_on_NUL cur xs @ split_on_NUL (unterminated cur xs) ys"
  by (induction xs arbitrary: cur) auto

lemma unterminated_append:
  "unterminated cur (xs @ ys) = unterminated (unterminated cur xs) ys"
  by (induction xs arbitrary: cur) auto

lemma unterminated_no_NUL:
  "NUL \<notin> set cur \<Longrightarrow> NUL \<notin> set (unterminated cur xs)"
  by (induction xs arbitrary: cur) auto

lemma split_cur:
  "NUL \<notin> set cur \<Longrightarrow> split_on_NUL cur xs = split_on_NUL [] (cur @ xs)"
  using split_append [of "[]" cur xs] split_no_NUL [of cur "[]"] by simp

lemma unterminated_cur:
  "NUL \<notin> set cur \<Longrightarrow> unterminated cur xs = unterminated [] (cur @ xs)"
  using unterminated_append [of "[]" cur xs] split_no_NUL [of cur "[]"] by simp

lemma decode_records_append:
  "decode_records (xs @ ys) =
     (case decode_records xs of
        Inl e \<Rightarrow> Inl e
      | Inr ds \<Rightarrow> (case decode_records ys of Inl e \<Rightarrow> Inl e | Inr ds' \<Rightarrow> Inr (ds @ ds')))"
  by (induction xs) (auto split: sum.splits)

lemma index_from_Some:
  assumes "index_from buf NUL start = Some i"
  shows "\<exists>tw. drop start buf = tw @ NUL # drop (Suc i) buf \<and> NUL \<notin> set tw
            \<and> take (i - start) (drop start buf) = tw"
proof -
  let ?xs = "drop start buf"
  from assms have m: "NUL \<in> set ?xs"
    and i: "i = start + length (takeWhile (\<lambda>x. x \<noteq> NUL) ?xs)"
    by (simp_all add: index_from_def split: if_splits)
  from split_list_first [OF m] obtain ys zs where
    xs: "?xs = ys @ NUL # zs" and n: "NUL \<notin> set ys"
    by blast
  have "NUL \<notin> set us \<Longrightarrow> takeWhile (\<lambda>x. x \<noteq> NUL) (us @ NUL # zs) = us" for us
    by (induction us) auto
  from this [OF n] have tw: "takeWhile (\<lambda>x. x \<noteq> NUL) ?xs = ys"
    unfolding xs .
  have i': "i = start + length ys"
    using i tw by simp
  have "drop (Suc (length ys)) ?xs = zs"
    unfolding xs by simp
  then have d: "drop (Suc i) buf = zs"
    unfolding i' by (simp add: add.commute)
  have t: "take (i - start) ?xs = ys"
    unfolding i' xs by simp
  show ?thesis
    using xs d t n by simp
qed

lemma scan_buf_eq:
  "scan_buf buf start =
     (case decode_records (split_on_NUL [] (drop start buf)) of
        Inl e \<Rightarrow> Inl e
      | Inr ds \<Rightarrow> Inr (ds, unterminated [] (drop start buf)))"
proof (induction buf start rule: scan_buf.induct)
  case (1 buf start)
  show ?case
  proof (cases "index_from buf NUL start")
    case None
    then have "NUL \<notin> set (drop start buf)"
      by (simp add: index_from_def split: if_splits)
    then show ?thesis
      using None by (subst scan_buf.simps) (simp add: split_no_NUL)
  next
    case (Some i)
    from index_from_Some [OF Some] obtain tw where
      tw: "drop start buf = tw @ NUL # drop (Suc i) buf" "NUL \<notin> set tw"
          "take (i - start) (drop start buf) = tw"
      by blast
    have R1: "split_on_NUL [] (drop start buf) = tw # split_on_NUL [] (drop (Suc i) buf)"
      by (subst tw(1)) (simp add: split_upto_NUL tw(2))
    have R2: "unterminated [] (drop start buf) = unterminated [] (drop (Suc i) buf)"
      by (subst tw(1)) (simp add: unterminated_upto_NUL tw(2))
    show ?thesis
    proof (cases "decode tw")
      case (Inl e)
      have L: "scan_buf buf start = Inl e"
        by (subst scan_buf.simps) (simp add: Some tw(3) Inl)
      show ?thesis
        unfolding L R1 by (simp add: Inl)
    next
      case (Inr s)
      have ih: "scan_buf buf (Suc i) =
        (case decode_records (split_on_NUL [] (drop (Suc i) buf)) of
           Inl e \<Rightarrow> Inl e
         | Inr ds \<Rightarrow> Inr (ds, unterminated [] (drop (Suc i) buf)))"
        using "1.IH" [OF Some] Inr tw(3) by (simp cong: sum.case_cong)
      have L: "scan_buf buf start =
        (case scan_buf buf (Suc i) of
           Inl e \<Rightarrow> Inl e
         | Inr (ds, rest) \<Rightarrow> Inr ((if s = [] then ''.'' else s) # ds, rest))"
        by (subst scan_buf.simps) (simp add: Some tw(3) Inr)
      show ?thesis
        unfolding L R1 R2 ih by (simp add: Inr split: sum.splits)
    qed
  qed
qed

lemma read_chunks_eq:
  "0 < csz \<Longrightarrow> NUL \<notin> set buf \<Longrightarrow>
   read_chunks csz f buf = decode_records (split_on_NUL buf f)"
proof (induction csz f buf rule: read_chunks.induct)
  case (1 csz f buf)
  show ?case
  proof (cases "take csz f = []")
    case True
    then have "f = []" using "1.prems" by auto
    then show ?thesis
      by (subst read_chunks.simps) simp
  next
    case False
    let ?c = "take csz f"
    have f: "f = ?c @ drop csz f" by simp
    have sp: "split_on_NUL buf f =
        split_on_NUL [] (buf @ ?c) @ split_on_NUL (unterminated [] (buf @ ?c)) (drop csz f)"
      using split_append [of buf ?c "drop csz f"] split_cur [OF "1.prems"(2), of ?c]
        unterminated_cur [OF "1.prems"(2), of ?c]
      by simp
    have nn: "NUL \<notin> set (unterminated [] (buf @ ?c))"
      by (rule unterminated_no_NUL) simp
    show ?thesis
    proof (cases "decode_records (split_on_NUL [] (buf @ ?c))")
      case (Inl e)
      then show ?thesis
        using False
        by (subst read_chunks.simps, subst sp)
           (simp add: scan_buf_eq decode_records_append Let_def)
    next
      case (Inr ds)
      have sb: "scan_buf (buf @ ?c) 0 = Inr (ds, unterminated [] (buf @ ?c))"
        using Inr by (simp add: scan_buf_eq)
      have ih: "read_chunks csz (drop csz f) (unterminated [] (buf @ ?c)) =
          decode_records (split_on_NUL (unterminated [] (buf @ ?c)) (drop csz f))"
        using "1.IH" [OF refl False sb refl "1.prems"(1) nn] .
      show ?thesis
        using False Inr
        by (subst read_chunks.simps, subst sp)
           (simp add: sb ih decode_records_append Let_def split: sum.splits)
    qed
  qed
qed

lemma read_ledger_eq:
  "read_ledger f = decode_records (split_on_NUL [] (content f))"
  by (simp add: read_ledger_def read_chunks_eq)

subsection \<open>Access errors while listing\<close>

lemma fold_skip:
  assumes "\<And>s. f x s = s"
  shows "fold f (xs @ x # ys) st = fold f (xs @ ys) st"
  using assms by simp

text \<open>
  C7, amended. When \<^verbatim>\<open>os.scandir\<close> fails for a directory, in phase 1 or in phase 2, the
  worker emits nothing for that directory and goes on with the rest of its queue. When the
  classification of one entry fails (\<^verbatim>\<open>de.is_dir\<close> in phase 1, \<^verbatim>\<open>de.is_file\<close> in phase 2),
  that entry alone is skipped: the state is as it was, and the listing is handled as if the
  entry were not in it. The workers return a state in every case; no error leaves them.
\<close>

theorem access_errors_absorbed:
  "(scandir h d = Inl e \<longrightarrow>
      dir_worker_item a h d st = st\<lparr>log := log st @ [Dir_scan d]\<rparr>
    \<and> dir_worker (Suc n) a h (st\<lparr>dir_q := d # q\<rparr>)
        = dir_worker n a h (st\<lparr>dir_q := q, log := log st @ [Dir_scan d]\<rparr>))
 \<and> (scandir h (if dir_rel = ''.'' then root a else os_path_join (root a) dir_rel) = Inl e \<longrightarrow>
      file_worker_item a h dir_rel st
        = st\<lparr>log := log st @ [File_scan (if dir_rel = ''.'' then root a
                                             else os_path_join (root a) dir_rel)]\<rparr>
    \<and> file_worker a h (dir_rel # ds) st
        = file_worker a h ds
            (st\<lparr>log := log st @ [File_scan (if dir_rel = ''.'' then root a
                                                else os_path_join (root a) dir_rel)]\<rparr>))
 \<and> ((if follow_symlinks a then is_dir_follow de else is_dir_nofollow de) = Inl e \<longrightarrow>
      dir_worker_entry a d de st = st
    \<and> fold (dir_worker_entry a d) (des1 @ de # des2) st
        = fold (dir_worker_entry a d) (des1 @ des2) st)
 \<and> (is_file_nofollow de = Inl e \<longrightarrow>
      file_worker_entry a h dir_rel de st = st
    \<and> fold (file_worker_entry a h dir_rel) (des1 @ de # des2) st
        = fold (file_worker_entry a h dir_rel) (des1 @ des2) st)"
proof (intro conjI impI)
  assume s: "scandir h d = Inl e"
  show i: "dir_worker_item a h d st = st\<lparr>log := log st @ [Dir_scan d]\<rparr>"
    by (simp add: dir_worker_item_def s)
  have "dir_worker_item a h d (st\<lparr>dir_q := q\<rparr>) = st\<lparr>dir_q := q, log := log st @ [Dir_scan d]\<rparr>"
    by (simp add: dir_worker_item_def s)
  then show "dir_worker (Suc n) a h (st\<lparr>dir_q := d # q\<rparr>)
        = dir_worker n a h (st\<lparr>dir_q := q, log := log st @ [Dir_scan d]\<rparr>)"
    by (subst dir_worker.simps) simp
next
  let ?p = "if dir_rel = ''.'' then root a else os_path_join (root a) dir_rel"
  assume s: "scandir h ?p = Inl e"
  show i: "file_worker_item a h dir_rel st = st\<lparr>log := log st @ [File_scan ?p]\<rparr>"
    using s by (simp add: file_worker_item_def Let_def)
  show "file_worker a h (dir_rel # ds) st = file_worker a h ds (st\<lparr>log := log st @ [File_scan ?p]\<rparr>)"
    using i by (simp add: file_worker_def)
next
  assume c: "(if follow_symlinks a then is_dir_follow de else is_dir_nofollow de) = Inl e"
  have k: "dir_worker_entry a d de s = s" for s
    using c by (simp add: dir_worker_entry_def)
  show "dir_worker_entry a d de st = st"
    by (rule k)
  show "fold (dir_worker_entry a d) (des1 @ de # des2) st
        = fold (dir_worker_entry a d) (des1 @ des2) st"
    by (rule fold_skip) (rule k)
next
  assume c: "is_file_nofollow de = Inl e"
  have k: "file_worker_entry a h dir_rel de s = s" for s
    using c by (simp add: file_worker_entry_def)
  show "file_worker_entry a h dir_rel de st = st"
    by (rule k)
  show "fold (file_worker_entry a h dir_rel) (des1 @ de # des2) st
        = fold (file_worker_entry a h dir_rel) (des1 @ des2) st"
    by (rule fold_skip) (rule k)
qed

lemma ex_relpath_a: "relpath ''/r'' ''/r/a'' = ''a''"
  by (simp add: relpath_def os_path_relpath_def abs_comps_def join_all_def)

lemma mod_Suc_Suc_0: "n mod Suc (Suc 0) = n mod 2"
  by (simp only: numeral_2_eq_2)

text \<open>
  C7 as stated fails: the first entry of \<^verbatim>\<open>/r\<close> cannot be classified, and still the
  subdirectory \<^verbatim>\<open>a\<close> is recorded in phase 1 and the file \<^verbatim>\<open>f\<close> is emitted in phase 2.
\<close>

theorem entry_error_skips_entry_only:
  "scandir ex_host ''/r'' = Inr [ent_denied ''z'', ent_dir ''a'', ent_dir ''b'', ent_file ''f'']
   \<and> is_dir_nofollow (ent_denied ''z'') = Inl PermissionError
   \<and> ledger_records (log (dir_worker_item ex_args ex_host ''/r'' ex_state)) = [''a'']
   \<and> is_file_nofollow (ent_denied ''z'') = Inl PermissionError
   \<and> out_records 0 (log (file_worker_item ex_args ex_host ''.'' ex_state)) = [''f'']"
  by (simp add: dir_worker_item_def dir_worker_entry_def emit_dir_simp fwrite_def
      ex_args_def ex_host_def ex_state_def new_file_def ent_dir_def ent_file_def ent_denied_def
      ex_relpath_a os_path_join_def
      file_worker_item_def file_worker_entry_simp choose_out_def encode_def Let_def mod_Suc_Suc_0)

theorem access_errors_absorbed_witness:
  "scandir ex_host ''/q'' = Inl FileNotFoundError
   \<and> dir_worker_item ex_args ex_host ''/q'' ex_state = ex_state\<lparr>log := [Dir_scan ''/q'']\<rparr>
   \<and> file_worker_item ex_args ex_host ''q'' ex_state = ex_state\<lparr>log := [File_scan ''/r/q'']\<rparr>
   \<and> is_dir_nofollow (ent_denied ''z'') = Inl PermissionError
   \<and> dir_worker_entry ex_args ''/r'' (ent_denied ''z'') ex_state = ex_state
   \<and> file_worker_entry ex_args ex_host ''.'' (ent_denied ''z'') ex_state = ex_state"
proof -
  have 1: "scandir ex_host ''/q'' = Inl FileNotFoundError"
    by (simp add: ex_host_def)
  have 2: "scandir ex_host (if ''q'' = ''.'' then root ex_args else os_path_join (root ex_args) ''q'')
      = Inl FileNotFoundError"
    by (simp add: ex_host_def ex_args_def os_path_join_def)
  have 3: "(if follow_symlinks ex_args then is_dir_follow (ent_denied ''z'')
            else is_dir_nofollow (ent_denied ''z'')) = Inl PermissionError"
    by (simp add: ex_args_def ent_denied_def)
  have 4: "is_file_nofollow (ent_denied ''z'') = Inl PermissionError"
    by (simp add: ent_denied_def)
  have 5: "log ex_state = []"
    by (simp add: ex_state_def)
  have 6: "(if ''q'' = ''.'' then root ex_args else os_path_join (root ex_args) ''q'') = ''/r/q''"
    by (simp add: ex_args_def os_path_join_def)
  note t1 = access_errors_absorbed [where h = ex_host and d = "''/q''" and e = FileNotFoundError
      and a = ex_args and st = ex_state and dir_rel = "''q''"]
  note t2 = access_errors_absorbed [where e = PermissionError and de = "ent_denied ''z''"
      and a = ex_args and st = ex_state and d = "''/r''" and h = ex_host and dir_rel = "''.''"]
  show ?thesis
    using t1 t2 1 2 3 4 5 6 by (simp add: ent_denied_def)
qed

subsection \<open>An empty record of the Ledger\<close>


subsection \<open>Refused writes\<close>


lemma ex_manifest_fields:
  "root ex_manifest_args = ''/r''" "shards ex_manifest_args = 0"
  "out_manifest ex_manifest_args = Some ''m''" "outdir ex_manifest_args = None"
  "exclude ex_manifest_args = [''b'']" "follow_symlinks ex_manifest_args = False"
  "mode ex_manifest_args = ByDir"
  by (simp_all add: ex_manifest_args_def)

lemma ex_host_fields:
  "scandir ex_host ''/r'' = Inr [ent_denied ''z'', ent_dir ''a'', ent_dir ''b'', ent_file ''f'']"
  "scandir ex_host ''/r/a'' = Inr [ent_file ''x'']"
  "scandir ex_host ''/r/b'' = Inr [ent_file ''y'']"
  "isdir ex_host ''/r''"
  by (simp_all add: ex_host_def)


lemma ex_fields:
  "root ex_args = ''/r''" "shards ex_args = 2"
  "out_manifest ex_args = None" "outdir ex_args = Some ''out''"
  "exclude ex_args = [''b'']" "follow_symlinks ex_args = False"
  "mode ex_args = ByDir"
  by (simp_all add: ex_args_def)


subsection \<open>Steps, case by case\<close>

lemma fold_invariant:
  "I st \<Longrightarrow> (\<And>x s. x \<in> set xs \<Longrightarrow> I s \<Longrightarrow> I (f x s)) \<Longrightarrow> I (fold f xs st)"
  by (induction xs arbitrary: st) auto

lemma fwrite_Inr:
  "fwrite f b = Inr f' \<Longrightarrow> content f' = content f @ b \<and> (room f = None \<longrightarrow> room f' = None)"
  by (auto simp: fwrite_def split: option.splits if_splits)

lemma fwrite_unlimited:
  "room f = None \<Longrightarrow> fwrite f b = Inr (f\<lparr>content := content f @ b\<rparr>)"
  by (simp add: fwrite_def)

lemma dir_worker_entry_cases:
  "dir_worker_entry a d de st = st
   \<or> (name de \<notin> set (exclude a)
      \<and> (\<exists>f. fwrite (dirs_file st) (relpath (root a) (os_path_join d (name de)) @ [NUL]) = Inr f
           \<and> dir_worker_entry a d de st =
               st\<lparr>dirs_file := f, dirs_emitted := dirs_emitted st + 1,
                  dir_q := dir_q st @ [os_path_join d (name de)],
                  log := log st @ [Ledger_write (relpath (root a) (os_path_join d (name de))),
                                   Dir_put (os_path_join d (name de))]\<rparr>))"
  by (auto simp: dir_worker_entry_def emit_dir_simp split: sum.splits)

lemma choose_out_frame:
  "outs (snd (choose_out a h p d st)) = outs st
   \<and> log (snd (choose_out a h p d st)) = log st
   \<and> dirs_file (snd (choose_out a h p d st)) = dirs_file st
   \<and> dir_q (snd (choose_out a h p d st)) = dir_q st"
  by (simp add: choose_out_def Let_def)

lemma choose_out_bound:
  "outs st \<noteq> [] \<Longrightarrow> fst (choose_out a h p d st) < length (outs st)"
  by (simp add: choose_out_def Let_def)

lemma file_worker_entry_cases:
  "(outs (file_worker_entry a h d de st) = outs st
      \<and> log (file_worker_entry a h d de st) = log st
      \<and> dirs_file (file_worker_entry a h d de st) = dirs_file st
      \<and> dir_q (file_worker_entry a h d de st) = dir_q st)
   \<or> (is_file_nofollow de = Inr True
      \<and> (\<exists>f. fwrite (outs st ! fst (choose_out a h (rel_file d (name de)) d st))
                  (rel_file d (name de) @ [NUL]) = Inr f
           \<and> outs (file_worker_entry a h d de st)
               = (outs st)[fst (choose_out a h (rel_file d (name de)) d st) := f]
           \<and> log (file_worker_entry a h d de st)
               = log st @ [Out_write (fst (choose_out a h (rel_file d (name de)) d st))
                                     (rel_file d (name de))]
           \<and> dirs_file (file_worker_entry a h d de st) = dirs_file st
           \<and> dir_q (file_worker_entry a h d de st) = dir_q st))"
  by (auto simp: file_worker_entry_simp rel_file_def choose_out_frame Let_def split: sum.splits)

lemma dir_worker_item_unfold:
  "dir_worker_item a h d st =
     (case scandir h d of
        Inl e \<Rightarrow> st\<lparr>log := log st @ [Dir_scan d]\<rparr>
      | Inr des \<Rightarrow> fold (dir_worker_entry a d) des (st\<lparr>log := log st @ [Dir_scan d]\<rparr>))"
  by (simp add: dir_worker_item_def Let_def)

lemma file_worker_item_unfold:
  "file_worker_item a h d st =
     (case scandir h (dir_abs a d) of
        Inl e \<Rightarrow> st\<lparr>log := log st @ [File_scan (dir_abs a d)]\<rparr>
      | Inr des \<Rightarrow> fold (file_worker_entry a h d) des
                    (st\<lparr>log := log st @ [File_scan (dir_abs a d)]\<rparr>))"
  by (simp add: file_worker_item_def dir_abs_def Let_def split: sum.splits)

subsection \<open>Invariants of the worker pools\<close>

lemma dir_worker_invariant:
  assumes run: "dir_worker n a h st = Some st'"
    and init: "I st"
    and pop: "\<And>s d q. I s \<Longrightarrow> dir_q s = d # q \<Longrightarrow> J d (s\<lparr>dir_q := q, log := log s @ [Dir_scan d]\<rparr>)"
    and ent: "\<And>s d des de. J d s \<Longrightarrow> scandir h d = Inr des \<Longrightarrow> de \<in> set des
                \<Longrightarrow> J d (dir_worker_entry a d de s)"
    and fin: "\<And>s d. J d s \<Longrightarrow> I s"
  shows "I st' \<and> dir_q st' = []"
  using run init
proof (induction n arbitrary: st)
  case 0
  then show ?case
    by (subst (asm) dir_worker.simps) (auto split: list.splits)
next
  case (Suc n)
  show ?case
  proof (cases "dir_q st")
    case Nil
    then show ?thesis
      using Suc.prems by (subst (asm) dir_worker.simps) simp
  next
    case (Cons d q)
    let ?s1 = "st\<lparr>dir_q := q, log := log st @ [Dir_scan d]\<rparr>"
    have j: "J d ?s1"
      using pop [OF Suc.prems(2) Cons] .
    have "J d (dir_worker_item a h d (st\<lparr>dir_q := q\<rparr>))"
    proof (cases "scandir h d")
      case (Inl e)
      then show ?thesis using j by (simp add: dir_worker_item_unfold)
    next
      case (Inr des)
      have "J d (fold (dir_worker_entry a d) des ?s1)"
        by (rule fold_invariant [where I = "J d", OF j]) (rule ent [OF _ Inr])
      then show ?thesis using Inr by (simp add: dir_worker_item_unfold)
    qed
    then have i: "I (dir_worker_item a h d (st\<lparr>dir_q := q\<rparr>))"
      by (rule fin)
    have r: "dir_worker n a h (dir_worker_item a h d (st\<lparr>dir_q := q\<rparr>)) = Some st'"
      using Suc.prems(1) Cons by (subst (asm) dir_worker.simps) simp
    show ?thesis
      by (rule Suc.IH [OF r i])
  qed
qed

lemma file_worker_invariant:
  assumes init: "I st"
    and scan: "\<And>s d. d \<in> set ds \<Longrightarrow> I s \<Longrightarrow> J d (s\<lparr>log := log s @ [File_scan (dir_abs a d)]\<rparr>)"
    and ent: "\<And>s d des de. d \<in> set ds \<Longrightarrow> J d s \<Longrightarrow> scandir h (dir_abs a d) = Inr des
                \<Longrightarrow> de \<in> set des \<Longrightarrow> J d (file_worker_entry a h d de s)"
    and fin: "\<And>s d. J d s \<Longrightarrow> I s"
  shows "I (file_worker a h ds st)"
  unfolding file_worker_def
proof (rule fold_invariant [where I = I, OF init])
  fix d s
  assume d: "d \<in> set ds" and i: "I s"
  let ?s1 = "s\<lparr>log := log s @ [File_scan (dir_abs a d)]\<rparr>"
  have j: "J d ?s1"
    by (rule scan [OF d i])
  have "J d (file_worker_item a h d s)"
  proof (cases "scandir h (dir_abs a d)")
    case (Inl e)
    then show ?thesis using j by (simp add: file_worker_item_unfold)
  next
    case (Inr des)
    have "J d (fold (file_worker_entry a h d) des ?s1)"
      by (rule fold_invariant [where I = "J d", OF j]) (rule ent [OF d _ Inr])
    then show ?thesis using Inr by (simp add: file_worker_item_unfold)
  qed
  then show "I (file_worker_item a h d s)"
    by (rule fin)
qed

subsection \<open>The course of a run\<close>

lemma main_Inr:
  assumes "main fuel a h dk = Some (Inr st)"
  shows "\<exists>f1 st2 os ds.
      fwrite (dirs_nul dk) (''.'' @ [NUL]) = Inr f1
    \<and> dir_worker fuel a h (state_seeded a f1) = Some st2
    \<and> open_outputs (out_manifest a) (outdir a) (shards a) dk = Inr os
    \<and> read_ledger (dirs_file st2) = Inr ds
    \<and> st = (file_worker a h ds (state_listing st2 os ds))
              \<lparr>log := log (file_worker a h ds (state_listing st2 os ds)) @ [Outs_closed]\<rparr>"
proof -
  let ?st0 = "\<lparr>dirs_file = fopen AB (dirs_nul dk), dirs_emitted = 0, dir_q = [],
               outs = [], rr_counter = 0, files_emitted = 0, log = []\<rparr>"
  from assms obtain st1 where e: "emit_dir ''.'' ?st0 = Inr st1"
    by (auto simp: main_def Let_def split: if_splits sum.splits)
  from e obtain f1 where f1: "fwrite (dirs_nul dk) (''.'' @ [NUL]) = Inr f1"
    and st1: "st1 = \<lparr>dirs_file = f1, dirs_emitted = 1, dir_q = [], outs = [], rr_counter = 0,
                     files_emitted = 0, log = [Ledger_write ''.'']\<rparr>"
    by (auto simp: emit_dir_simp fopen_def split: sum.splits)
  have s: "st1\<lparr>dir_q := [root a], log := log st1 @ [Dir_put (root a)]\<rparr> = state_seeded a f1"
    by (simp add: st1 state_seeded_def)
  from assms e obtain st2 where
    w: "dir_worker fuel a h (state_seeded a f1) = Some st2"
    and p: "main_phase2 a h dk (st2\<lparr>dirs_file := fflush (dirs_file st2),
              log := log st2 @ [Workers1_joined, Ledger_closed]\<rparr>) = Inr st"
    by (auto simp: main_def Let_def s split: if_splits option.splits)
  from p obtain os where os: "open_outputs (out_manifest a) (outdir a) (shards a) dk = Inr os"
    by (auto simp: main_phase2_def split: sum.splits)
  from p os obtain ds where ds: "read_ledger (dirs_file st2) = Inr ds"
    by (auto simp: main_phase2_def Let_def split: sum.splits)
  have l: "st2\<lparr>dirs_file := dirs_file st2, log := log st2 @ [Workers1_joined, Ledger_closed],
              outs := os, rr_counter := 0, files_emitted := 0,
              log := (log st2 @ [Workers1_joined, Ledger_closed]) @ [Outs_opened (length os)],
              log := ((log st2 @ [Workers1_joined, Ledger_closed]) @ [Outs_opened (length os)])
                      @ Ledger_reopened # map Dir_in_put ds\<rparr>
           = state_listing st2 os ds"
    by (simp add: state_listing_def)
  have "st = (file_worker a h ds (state_listing st2 os ds))
              \<lparr>log := log (file_worker a h ds (state_listing st2 os ds)) @ [Outs_closed]\<rparr>"
    using p os ds by (simp add: main_phase2_def Let_def state_listing_def)
  then show ?thesis
    using f1 w os ds by blast
qed

lemma open_outputs_Inr:
  assumes "open_outputs om od n dk = Inr os"
  shows "(0 < n \<longrightarrow> length os = nat n \<and> (\<forall>i < nat n. os ! i = shard dk i))
       \<and> (n \<le> 0 \<longrightarrow> os = [manifest dk])"
  using assms
  by (auto simp: open_outputs_def fopen_def split: if_splits option.splits)

subsection \<open>Records in the log and bytes in the files\<close>

lemma ledger_records_append [simp]:
  "ledger_records (xs @ ys) = ledger_records xs @ ledger_records ys"
  by (induction xs rule: ledger_records.induct) auto

lemma out_records_append [simp]:
  "out_records i (xs @ ys) = out_records i xs @ out_records i ys"
  by (induction i xs rule: out_records.induct) auto

lemma dirs_in_put_append [simp]:
  "dirs_in_put (xs @ ys) = dirs_in_put xs @ dirs_in_put ys"
  by (induction xs rule: dirs_in_put.induct) auto

lemma dirs_in_put_map [simp]: "dirs_in_put (map Dir_in_put ds) = ds"
  by (induction ds) auto

lemma nul_terminated_append [simp]:
  "nul_terminated (xs @ ys) = nul_terminated xs @ nul_terminated ys"
  by (simp add: nul_terminated_def)

lemma nul_terminated_simps [simp]:
  "nul_terminated [] = []" "nul_terminated (r # rs) = r @ NUL # nul_terminated rs"
  by (simp_all add: nul_terminated_def encode_def)

lemma phase1_no_out_records:
  "\<forall>e \<in> set evs. phase1_event e \<Longrightarrow> out_records i evs = [] \<and> dirs_in_put evs = []"
proof (induction evs)
  case Nil
  then show ?case by simp
next
  case (Cons e evs)
  then show ?case by (cases e) auto
qed

lemma phase2_no_ledger_records:
  "\<forall>e \<in> set evs. phase2_event e \<Longrightarrow> ledger_records evs = []"
proof (induction evs)
  case Nil
  then show ?case by simp
next
  case (Cons e evs)
  then show ?case by (cases e) auto
qed

subsection \<open>What each phase writes\<close>

lemma phase1_structure:
  assumes run: "dir_worker n a h st = Some st'"
    and c: "content (dirs_file st) = c0 @ nul_terminated (ledger_records (log st))"
    and e: "\<forall>e \<in> set (log st). phase1_event e"
  shows "content (dirs_file st') = c0 @ nul_terminated (ledger_records (log st'))
       \<and> outs st' = outs st
       \<and> (\<forall>e \<in> set (log st'). phase1_event e)
       \<and> dir_q st' = []"
proof -
  let ?I = "\<lambda>s :: state. content (dirs_file s) = c0 @ nul_terminated (ledger_records (log s))
       \<and> outs s = outs st \<and> (\<forall>e \<in> set (log s). phase1_event e)"
  have "?I st' \<and> dir_q st' = []"
  proof (rule dir_worker_invariant [where I = ?I and J = "\<lambda>d. ?I", OF run])
    show "?I st" using c e by simp
  next
    fix s d q
    assume "?I s" "dir_q s = d # q"
    then show "?I (s\<lparr>dir_q := q, log := log s @ [Dir_scan d]\<rparr>)" by simp
  next
    fix s d des de
    assume i: "?I s"
    show "?I (dir_worker_entry a d de s)"
      using dir_worker_entry_cases [of a d de s] i
      by (auto dest!: fwrite_Inr)
  qed simp
  then show ?thesis by simp
qed

lemma phase2_structure:
  assumes n: "length (outs st) = N"
    and c: "\<forall>i < N. content (outs st ! i) = base i @ nul_terminated (out_records i (log st))"
    and l: "log st = pre @ evs0" and e: "\<forall>e \<in> set evs0. phase2_event e"
  shows "dirs_file (file_worker a h ds st) = dirs_file st
       \<and> dir_q (file_worker a h ds st) = dir_q st
       \<and> length (outs (file_worker a h ds st)) = N
       \<and> (\<forall>i < N. content (outs (file_worker a h ds st) ! i)
                     = base i @ nul_terminated (out_records i (log (file_worker a h ds st))))
       \<and> (\<exists>evs. log (file_worker a h ds st) = pre @ evs \<and> (\<forall>e \<in> set evs. phase2_event e))"
proof -
  let ?I = "\<lambda>s :: state. dirs_file s = dirs_file st \<and> dir_q s = dir_q st \<and> length (outs s) = N
       \<and> (\<forall>i < N. content (outs s ! i) = base i @ nul_terminated (out_records i (log s)))
       \<and> (\<exists>evs. log s = pre @ evs \<and> (\<forall>e \<in> set evs. phase2_event e))"
  show ?thesis
  proof (rule file_worker_invariant [where I = ?I and J = "\<lambda>d. ?I"])
    show "?I st" using n c l e by auto
  next
    fix s d
    assume i: "?I s"
    then obtain evs where "log s = pre @ evs" "\<forall>e \<in> set evs. phase2_event e"
      by blast
    then have "log s @ [File_scan (dir_abs a d)] = pre @ (evs @ [File_scan (dir_abs a d)])
        \<and> (\<forall>e \<in> set (evs @ [File_scan (dir_abs a d)]). phase2_event e)"
      by simp
    then have "\<exists>evs'. log s @ [File_scan (dir_abs a d)] = pre @ evs'
        \<and> (\<forall>e \<in> set evs'. phase2_event e)"
      by blast
    then show "?I (s\<lparr>log := log s @ [File_scan (dir_abs a d)]\<rparr>)"
      using i by simp
  next
    fix s d des de
    assume i: "?I s"
    let ?s' = "file_worker_entry a h d de s"
    let ?k = "fst (choose_out a h (rel_file d (name de)) d s)"
    let ?r = "rel_file d (name de)"
    from file_worker_entry_cases [of a h d de s]
    show "?I ?s'"
    proof
      assume "outs ?s' = outs s \<and> log ?s' = log s \<and> dirs_file ?s' = dirs_file s
          \<and> dir_q ?s' = dir_q s"
      then show ?thesis using i by simp
    next
      assume "is_file_nofollow de = Inr True \<and>
        (\<exists>f. fwrite (outs s ! ?k) (?r @ [NUL]) = Inr f
           \<and> outs ?s' = (outs s)[?k := f]
           \<and> log ?s' = log s @ [Out_write ?k ?r]
           \<and> dirs_file ?s' = dirs_file s \<and> dir_q ?s' = dir_q s)"
      then obtain f where w: "fwrite (outs s ! ?k) (?r @ [NUL]) = Inr f"
        and o: "outs ?s' = (outs s)[?k := f]"
        and lg: "log ?s' = log s @ [Out_write ?k ?r]"
        and d: "dirs_file ?s' = dirs_file s" "dir_q ?s' = dir_q s"
        by blast
      have cf: "content f = content (outs s ! ?k) @ ?r @ [NUL]"
        using fwrite_Inr [OF w] by simp
      from i obtain evs where ev: "log s = pre @ evs" "\<forall>e \<in> set evs. phase2_event e"
        by blast
      have "log ?s' = pre @ (evs @ [Out_write ?k ?r])
          \<and> (\<forall>e \<in> set (evs @ [Out_write ?k ?r]). phase2_event e)"
        using lg ev by simp
      then have ex: "\<exists>evs'. log ?s' = pre @ evs' \<and> (\<forall>e \<in> set evs'. phase2_event e)"
        by blast
      have cn: "content (outs ?s' ! j) = base j @ nul_terminated (out_records j (log ?s'))"
        if "j < N" for j
      proof (cases "j = ?k")
        case True
        then show ?thesis
          using that i o lg cf by simp
      next
        case False
        then show ?thesis
          using that i o lg by simp
      qed
      show ?thesis
        using i o d ex cn by simp
    qed
  qed simp
qed

lemma run_course:
  assumes "main fuel a h dk = Some (Inr st)"
  shows "\<exists>f1 st2 os ds p2. course fuel a h dk st f1 st2 os ds p2"
proof -
  from main_Inr [OF assms] obtain f1 st2 os ds where
    f1: "fwrite (dirs_nul dk) (''.'' @ [NUL]) = Inr f1"
    and w: "dir_worker fuel a h (state_seeded a f1) = Some st2"
    and os: "open_outputs (out_manifest a) (outdir a) (shards a) dk = Inr os"
    and ds: "read_ledger (dirs_file st2) = Inr ds"
    and st: "st = (file_worker a h ds (state_listing st2 os ds))
              \<lparr>log := log (file_worker a h ds (state_listing st2 os ds)) @ [Outs_closed]\<rparr>"
    by blast
  have c1: "content (dirs_file (state_seeded a f1))
      = content (dirs_nul dk) @ nul_terminated (ledger_records (log (state_seeded a f1)))"
    using fwrite_Inr [OF f1] by (simp add: state_seeded_def)
  have e1: "\<forall>e \<in> set (log (state_seeded a f1)). phase1_event e"
    by (simp add: state_seeded_def)
  from phase1_structure [OF w c1 e1] have
    p1: "content (dirs_file st2) = content (dirs_nul dk) @ nul_terminated (ledger_records (log st2))"
      "outs st2 = []" "\<forall>e \<in> set (log st2). phase1_event e" "dir_q st2 = []"
    by (simp_all add: state_seeded_def)
  let ?s3 = "state_listing st2 os ds"
  let ?mid = "[Workers1_joined, Ledger_closed, Outs_opened (length os), Ledger_reopened]
                 @ map Dir_in_put ds"
  have n0: "out_records j (log st2) = []" for j
    using phase1_no_out_records [OF p1(3)] by simp
  have nm: "out_records j (map Dir_in_put ds) = []" for j
    by (induction ds) auto
  have o3: "out_records j (log ?s3) = []" for j
    by (simp add: state_listing_def n0 nm)
  have a1: "length (outs ?s3) = length os"
    by (simp add: state_listing_def)
  have a2: "\<forall>i < length os. content (outs ?s3 ! i)
      = content (os ! i) @ nul_terminated (out_records i (log ?s3))"
    by (simp add: o3) (simp add: state_listing_def)
  have a3: "log ?s3 = log st2 @ ?mid"
    by (simp add: state_listing_def)
  have a4: "\<forall>e \<in> set (Outs_opened (length os) # Ledger_reopened # map Dir_in_put ds).
      phase2_event e"
    by auto
  have a3': "log ?s3 = (log st2 @ [Workers1_joined, Ledger_closed])
      @ (Outs_opened (length os) # Ledger_reopened # map Dir_in_put ds)"
    by (simp add: state_listing_def)
  from phase2_structure [OF a1 a2 a3' a4, of a h ds] obtain evs where
    q: "dirs_file (file_worker a h ds ?s3) = dirs_file ?s3"
      "dir_q (file_worker a h ds ?s3) = dir_q ?s3"
      "length (outs (file_worker a h ds ?s3)) = length os"
      "\<forall>i < length os. content (outs (file_worker a h ds ?s3) ! i)
          = content (os ! i) @ nul_terminated (out_records i (log (file_worker a h ds ?s3)))"
      "log (file_worker a h ds ?s3) = (log st2 @ [Workers1_joined, Ledger_closed]) @ evs"
      "\<forall>e \<in> set evs. phase2_event e"
    by blast
  let ?p2 = "evs @ [Outs_closed]"
  have lg: "log st = log st2 @ [Workers1_joined, Ledger_closed] @ ?p2"
    using st q(5) by simp
  have pe: "\<forall>e \<in> set ?p2. phase2_event e"
    using q(6) by simp
  have or: "\<forall>j. out_records j (log st) = out_records j ?p2"
    using lg n0 by simp
  have dp: "dirs_in_put ?p2 = ds"
  proof -
    have s3: "dirs_in_put (log ?s3) = ds"
      using phase1_no_out_records [OF p1(3)] by (simp add: state_listing_def)
    have mono: "dirs_in_put (log (file_worker a h ds ?s3)) = ds"
    proof (rule file_worker_invariant
        [where I = "\<lambda>s :: state. dirs_in_put (log s) = ds" and J = "\<lambda>d s. dirs_in_put (log s) = ds"])
      show "dirs_in_put (log ?s3) = ds" by (rule s3)
    next
      fix s :: state and d des de
      assume "dirs_in_put (log s) = ds"
      then show "dirs_in_put (log (file_worker_entry a h d de s)) = ds"
        using file_worker_entry_cases [of a h d de s] by auto
    qed simp_all
    have "dirs_in_put (log st2) = []"
      using phase1_no_out_records [OF p1(3)] by simp
    then show ?thesis
      using mono q(5) by simp
  qed
  have c: "\<forall>i < length os. content (outs st ! i)
      = content (os ! i) @ nul_terminated (out_records i (log st))"
    using q(4) st by simp
  have d: "dirs_file st = dirs_file st2" "dir_q st = []" "length (outs st) = length os"
    using q(1,2,3) st p1(4) by (simp_all add: state_listing_def)
  have "course fuel a h dk st f1 st2 os ds ?p2"
    unfolding course_def
    using f1 w os ds st p1(1,3,4) d c lg pe dp or by (intro conjI)
  then show ?thesis
    by blast
qed

subsection \<open>The run on the example tree\<close>

lemma upt_0_2: "[0..<2] = [0, Suc 0]"
  by (simp add: upt_rec)

lemma ex_disk_fields:
  "dirs_nul ex_disk = \<lparr>content = [], room = None\<rparr>"
  "manifest ex_disk = \<lparr>content = [], room = None\<rparr>"
  "shard ex_disk i = \<lparr>content = [], room = None\<rparr>"
  by (simp_all add: ex_disk_def new_file_def)

lemma ex_phase1:
  "dir_worker 2 ex_args ex_host
     \<lparr>dirs_file = \<lparr>content = [CHR ''.'', NUL], room = None\<rparr>, dirs_emitted = Suc 0,
      dir_q = [''/r''], outs = [], rr_counter = 0, files_emitted = 0,
      log = [Ledger_write ''.'', Dir_put ''/r'']\<rparr>
   = Some \<lparr>dirs_file = \<lparr>content = [CHR ''.'', NUL, CHR ''a'', NUL], room = None\<rparr>,
      dirs_emitted = Suc (Suc 0), dir_q = [], outs = [], rr_counter = 0, files_emitted = 0,
      log = [Ledger_write ''.'', Dir_put ''/r'', Dir_scan ''/r'', Ledger_write ''a'',
             Dir_put ''/r/a'', Dir_scan ''/r/a'']\<rparr>"
  by (simp add: dir_worker.simps dir_worker_item_def dir_worker_entry_def emit_dir_simp fwrite_def
      ex_fields ex_host_fields ent_dir_def ent_file_def ent_denied_def ex_relpath_a
      os_path_join_def)

lemma ex_digests:
  "from_bytes_little (blake2b ex_host 4 ''.'') mod 2 = 0"
  "from_bytes_little (blake2b ex_host 4 ''a'') mod 2 = 1"
  by (simp_all add: ex_host_def)

lemma ex_open:
  "open_outputs (out_manifest ex_args) (outdir ex_args) (shards ex_args) ex_disk
     = Inr [\<lparr>content = [], room = None\<rparr>, \<lparr>content = [], room = None\<rparr>]"
  by (simp add: open_outputs_def fopen_def ex_disk_fields upt_0_2 ex_fields)

lemma ex_read:
  "read_ledger \<lparr>content = [CHR ''.'', NUL, CHR ''a'', NUL], room = None\<rparr> = Inr [''.'', ''a'']"
  by (simp add: read_ledger_eq decode_def byte_in_def)

lemma ex_choose:
  "length (outs st) = 2 \<Longrightarrow> choose_out ex_args ex_host p ''.'' st = (0, st)"
  "length (outs st) = 2 \<Longrightarrow> choose_out ex_args ex_host p ''a'' st = (Suc 0, st)"
  by (simp_all add: choose_out_def ex_fields encode_def ex_digests)

lemma ex_files:
  "file_worker ex_args ex_host [''.'', ''a'']
     \<lparr>dirs_file = df, dirs_emitted = k, dir_q = [],
      outs = [\<lparr>content = [], room = None\<rparr>, \<lparr>content = [], room = None\<rparr>],
      rr_counter = 0, files_emitted = 0, log = l\<rparr>
   = \<lparr>dirs_file = df, dirs_emitted = k, dir_q = [],
      outs = [\<lparr>content = [CHR ''f'', NUL], room = None\<rparr>,
              \<lparr>content = [CHR ''a'', sep, CHR ''x'', NUL], room = None\<rparr>],
      rr_counter = 0, files_emitted = Suc (Suc 0),
      log = l @ [File_scan ''/r'', Out_write 0 ''f'', File_scan ''/r/a'', Out_write (Suc 0) ''a/x'']\<rparr>"
  by (simp add: file_worker_def file_worker_item_def file_worker_entry_simp ex_choose fwrite_def
      ex_fields ex_host_fields ent_dir_def ent_file_def ent_denied_def Let_def os_path_join_def)

lemma ex_phase2:
  "main_phase2 ex_args ex_host ex_disk
     \<lparr>dirs_file = \<lparr>content = [CHR ''.'', NUL, CHR ''a'', NUL], room = None\<rparr>,
      dirs_emitted = Suc (Suc 0), dir_q = [], outs = [], rr_counter = 0, files_emitted = 0,
      log = [Ledger_write ''.'', Dir_put ''/r'', Dir_scan ''/r'', Ledger_write ''a'',
             Dir_put ''/r/a'', Dir_scan ''/r/a'', Workers1_joined, Ledger_closed]\<rparr>
   = Inr ex_final"
  by (simp add: main_phase2_def ex_open ex_read ex_files ex_final_def)

lemma ex_run: "main 2 ex_args ex_host ex_disk = Some (Inr ex_final)"
  by (simp add: main_def ex_fields ex_host_fields emit_dir_simp fwrite_def fopen_def
      ex_disk_fields ex_phase1 ex_phase2)

lemma ex_final_fields:
  "content (dirs_file ex_final) = ''.'' @ [NUL] @ ''a'' @ [NUL]"
  "map content (outs ex_final) = [''f'' @ [NUL], ''a/x'' @ [NUL]]"
  "ledger_records (log ex_final) = [''.'', ''a'']"
  "out_records 0 (log ex_final) = [''f'']"
  "out_records (Suc 0) (log ex_final) = [''a/x'']"
  "dirs_in_put (log ex_final) = [''.'', ''a'']"
  by (simp_all add: ex_final_def)

subsection \<open>Append mode\<close>

text \<open>
  C9. The Ledger and every output are opened with \<^verbatim>\<open>"ab"\<close>, and nothing but \<^verbatim>\<open>write\<close>
  touches them: when a run returns, each file holds the bytes it held before the run,
  unchanged, followed by the records the log says were written to it, in order. No file is
  truncated.
\<close>

theorem outputs_appended:
  assumes "main fuel a h dk = Some (Inr st)"
  shows "content (dirs_file st)
           = content (dirs_nul dk) @ nul_terminated (ledger_records (log st))
       \<and> (0 < shards a \<longrightarrow>
            length (outs st) = nat (shards a)
          \<and> (\<forall>i < nat (shards a).
                content (outs st ! i)
                  = content (shard dk i) @ nul_terminated (out_records i (log st))))
       \<and> (shards a \<le> 0 \<longrightarrow>
            length (outs st) = 1
          \<and> content (outs st ! 0)
              = content (manifest dk) @ nul_terminated (out_records 0 (log st)))"
proof -
  from run_course [OF assms] obtain f1 st2 os ds p2 where
    "course fuel a h dk st f1 st2 os ds p2"
    by blast
  then have os: "open_outputs (out_manifest a) (outdir a) (shards a) dk = Inr os"
    and c1: "content (dirs_file st2)
        = content (dirs_nul dk) @ nul_terminated (ledger_records (log st2))"
    and df: "dirs_file st = dirs_file st2"
    and n: "length (outs st) = length os"
    and c2: "\<forall>i < length os. content (outs st ! i)
           = content (os ! i) @ nul_terminated (out_records i (log st))"
    and lg: "log st = log st2 @ [Workers1_joined, Ledger_closed] @ p2"
    and pe: "\<forall>e \<in> set p2. phase2_event e"
    unfolding course_def by blast+
  have "ledger_records (log st) = ledger_records (log st2)"
    using lg phase2_no_ledger_records [OF pe] by simp
  then have 1: "content (dirs_file st)
      = content (dirs_nul dk) @ nul_terminated (ledger_records (log st))"
    using c1 df by simp
  from open_outputs_Inr [OF os] have
    o: "0 < shards a \<longrightarrow> length os = nat (shards a) \<and> (\<forall>i < nat (shards a). os ! i = shard dk i)"
       "shards a \<le> 0 \<longrightarrow> os = [manifest dk]"
    by simp_all
  show ?thesis
    using 1 n c2 o by auto
qed

theorem outputs_appended_witness:
  "main 2 ex_args ex_host ex_disk = Some (Inr ex_final)
   \<and> content (dirs_file ex_final) = content (dirs_nul ex_disk) @ ''.'' @ [NUL] @ ''a'' @ [NUL]
   \<and> content (outs ex_final ! 0) = content (shard ex_disk 0) @ ''f'' @ [NUL]
   \<and> content (outs ex_final ! 1) = content (shard ex_disk 1) @ ''a/x'' @ [NUL]"
  using outputs_appended [OF ex_run] ex_run
  by (simp add: ex_fields ex_final_fields)

subsection \<open>The barrier between the phases\<close>



subsection \<open>Paths built from entry names\<close>

lemma split_sep_not_Nil [simp]: "split_sep s \<noteq> []"
  by (induction s) (auto split: list.splits)

lemma split_sep_no_sep: "sep \<notin> set n \<Longrightarrow> split_sep n = [n]"
  by (induction n) auto

lemma split_sep_append:
  "split_sep (xs @ sep # ys) = split_sep xs @ split_sep ys"
  by (induction xs) (auto split: list.splits)

lemma norm_comps_append:
  "norm_comps (xs @ ys) new = norm_comps ys (norm_comps xs new)"
  by (induction xs arbitrary: new) auto

lemma norm_comps_name:
  "wf_name n \<Longrightarrow> norm_comps [n] new = new @ [n]"
  by (auto simp: wf_name_def)

lemma norm_comps_snoc_name:
  "wf_name n \<Longrightarrow> norm_comps (xs @ [n]) new = norm_comps xs new @ [n]"
  by (simp add: norm_comps_append norm_comps_name del: norm_comps.simps)

lemma norm_comps_snoc_empty:
  "norm_comps (xs @ [[]]) new = norm_comps xs new"
  by (simp add: norm_comps_append)

lemma os_path_join_name:
  "wf_name n \<Longrightarrow>
   os_path_join d n = (if d = [] \<or> last d = sep then d @ n else d @ sep # n)"
  by (cases n) (auto simp: os_path_join_def wf_name_def)

lemma abs_comps_join:
  assumes "wf_name n"
  shows "abs_comps (os_path_join d n) = abs_comps d @ [n]"
proof -
  have s: "split_sep n = [n]"
    using assms by (simp add: split_sep_no_sep wf_name_def)
  show ?thesis
  proof (cases "d = []")
    case True
    then show ?thesis
      using assms s by (auto simp: os_path_join_def abs_comps_def wf_name_def)
  next
    case False
    show ?thesis
    proof (cases "last d = sep")
      case True
      with False have d: "d = butlast d @ [sep]"
        by (metis append_butlast_last_id)
      have j: "os_path_join d n = butlast d @ sep # n"
        using assms True False d by (simp add: os_path_join_name)
      have sd: "split_sep d = split_sep (butlast d) @ [[]]"
        using split_sep_append [of "butlast d" "[]"] d by simp
      show ?thesis
        unfolding abs_comps_def j sd
        using assms s
        by (simp add: split_sep_append norm_comps_snoc_name norm_comps_snoc_empty
            del: norm_comps.simps)
    next
      case l: False
      have j: "os_path_join d n = d @ sep # n"
        using assms False l by (simp add: os_path_join_name)
      show ?thesis
        unfolding abs_comps_def j
        using assms s
        by (simp add: split_sep_append norm_comps_snoc_name del: norm_comps.simps)
    qed
  qed
qed

lemma under_root_snoc:
  "under_root a (ns @ [n]) = os_path_join (under_root a ns) n"
  by (simp add: under_root_def)

lemma abs_comps_under_root:
  "\<forall>n \<in> set ns. wf_name n \<Longrightarrow> abs_comps (under_root a ns) = abs_comps (root a) @ ns"
proof (induction ns rule: rev_induct)
  case Nil
  then show ?case by (simp add: under_root_def)
next
  case (snoc n ns)
  then show ?case
    by (simp add: under_root_snoc abs_comps_join)
qed

lemma commonprefix_len_append:
  "commonprefix_len xs (xs @ ys) = length xs"
  by (induction xs) auto

lemma join_all_snoc:
  "ns \<noteq> [] \<Longrightarrow> join_all (ns @ [n]) = os_path_join (join_all ns) n"
  by (cases ns) (simp_all add: join_all_def)

lemma join_all_names:
  assumes "ns \<noteq> []" and "\<forall>n \<in> set ns. wf_name n"
  shows "join_all ns \<noteq> [] \<and> last (join_all ns) \<noteq> sep \<and> hd (join_all ns) \<noteq> sep
       \<and> NUL \<notin> set (join_all ns) \<and> split_sep (join_all ns) = ns"
  using assms
proof (induction ns rule: rev_nonempty_induct)
  case (single n)
  then have w: "wf_name n" by simp
  then have "n \<noteq> []" "sep \<notin> set n" "NUL \<notin> set n"
    by (simp_all add: wf_name_def)
  moreover from this have "last n \<noteq> sep" "hd n \<noteq> sep"
    by (metis last_in_set, metis hd_in_set)
  ultimately show ?case
    by (simp add: join_all_def split_sep_no_sep)
next
  case (snoc n ns)
  then have ih: "join_all ns \<noteq> []" "last (join_all ns) \<noteq> sep" "hd (join_all ns) \<noteq> sep"
      "NUL \<notin> set (join_all ns)" "split_sep (join_all ns) = ns"
    by simp_all
  from snoc.prems have w: "wf_name n" by simp
  then have n: "n \<noteq> []" "sep \<notin> set n" "NUL \<notin> set n"
    by (simp_all add: wf_name_def)
  then have ln: "last n \<noteq> sep"
    by (metis last_in_set)
  have j: "join_all (ns @ [n]) = join_all ns @ sep # n"
    using snoc.hyps ih w by (simp add: join_all_snoc os_path_join_name)
  show ?case
    unfolding j using ih n ln
    by (simp add: split_sep_append split_sep_no_sep)
qed

lemma relpath_under_root:
  assumes "\<forall>n \<in> set ns. wf_name n"
  shows "relpath (root a) (under_root a ns) = (if ns = [] then ''.'' else join_all ns)"
proof -
  have "os_path_relpath (under_root a ns) (root a) = (if ns = [] then ''.'' else join_all ns)"
    by (simp add: os_path_relpath_def abs_comps_under_root [OF assms] commonprefix_len_append
        Let_def)
  then show ?thesis
    by (simp add: relpath_def)
qed

lemma listed_wf: "wf_host h \<Longrightarrow> listed h n \<Longrightarrow> wf_name n"
  by (auto simp: wf_host_def listed_def)

lemma admitted_wf: "wf_host h \<Longrightarrow> admitted a h ns \<Longrightarrow> \<forall>n \<in> set ns. wf_name n"
  by (auto simp: admitted_def dest: listed_wf)

subsection \<open>What the phases log\<close>

lemma admitted_Nil [simp]: "admitted a h []"
  by (simp add: admitted_def)

lemma admitted_snoc:
  "admitted a h ns \<Longrightarrow> listed h n \<Longrightarrow> n \<notin> set (exclude a) \<Longrightarrow> admitted a h (ns @ [n])"
  by (simp add: admitted_def)

lemma phase1_clean:
  assumes run: "dir_worker n a h st = Some st'"
    and q: "\<forall>p \<in> set (dir_q st). \<exists>ns. admitted a h ns \<and> p = under_root a ns"
    and l: "\<forall>e \<in> set (log st). clean_event a h e"
  shows "\<forall>e \<in> set (log st'). clean_event a h e"
proof -
  let ?I = "\<lambda>s :: state. (\<forall>p \<in> set (dir_q s). \<exists>ns. admitted a h ns \<and> p = under_root a ns)
      \<and> (\<forall>e \<in> set (log s). clean_event a h e)"
  let ?J = "\<lambda>d s. ?I s \<and> (\<exists>ns. admitted a h ns \<and> d = under_root a ns)"
  have "?I st' \<and> dir_q st' = []"
  proof (rule dir_worker_invariant [where I = ?I and J = ?J, OF run])
    show "?I st" using q l by simp
  next
    fix s :: state and d q
    assume "?I s" "dir_q s = d # q"
    then show "?J d (s\<lparr>dir_q := q, log := log s @ [Dir_scan d]\<rparr>)"
      by auto
  next
    fix s :: state and d des de
    assume j: "?J d s" and sc: "scandir h d = Inr des" and de: "de \<in> set des"
    from j obtain ns where ns: "admitted a h ns" "d = under_root a ns"
      by blast
    have li: "listed h (name de)"
      using sc de by (auto simp: listed_def)
    let ?p = "os_path_join d (name de)"
    from dir_worker_entry_cases [of a d de s]
    show "?J d (dir_worker_entry a d de s)"
    proof
      assume "dir_worker_entry a d de s = s"
      then show ?thesis using j by simp
    next
      assume "name de \<notin> set (exclude a) \<and>
        (\<exists>f. fwrite (dirs_file s) (relpath (root a) ?p @ [NUL]) = Inr f
           \<and> dir_worker_entry a d de s =
               s\<lparr>dirs_file := f, dirs_emitted := dirs_emitted s + 1,
                  dir_q := dir_q s @ [?p],
                  log := log s @ [Ledger_write (relpath (root a) ?p), Dir_put ?p]\<rparr>)"
      then obtain f where x: "name de \<notin> set (exclude a)"
        and r: "dir_worker_entry a d de s =
               s\<lparr>dirs_file := f, dirs_emitted := dirs_emitted s + 1,
                  dir_q := dir_q s @ [?p],
                  log := log s @ [Ledger_write (relpath (root a) ?p), Dir_put ?p]\<rparr>"
        by blast
      have ad: "admitted a h (ns @ [name de])"
        by (rule admitted_snoc [OF ns(1) li x])
      have p: "?p = under_root a (ns @ [name de])"
        using ns(2) by (simp add: under_root_snoc)
      have c1: "clean_event a h (Dir_put ?p)"
        using ad p by auto
      have c2: "clean_event a h (Ledger_write (relpath (root a) ?p))"
        using ad p by (simp del: relpath_under_root) (metis snoc_eq_iff_butlast)
      have c3: "\<exists>ms. admitted a h ms \<and> ?p = under_root a ms"
        using ad p by blast
      show ?thesis
        unfolding r using j c1 c2 c3 by simp
    qed
  qed simp
  then show ?thesis by simp
qed

lemma phase2_out_records:
  "\<forall>i. \<forall>r \<in> set (out_records i (log (file_worker a h ds st))).
      r \<in> set (out_records i (log st))
    \<or> (\<exists>d \<in> set ds. \<exists>n. listed h n \<and> r = rel_file d n)"
proof -
  let ?I = "\<lambda>s :: state. \<forall>i. \<forall>r \<in> set (out_records i (log s)).
      r \<in> set (out_records i (log st))
    \<or> (\<exists>d \<in> set ds. \<exists>n. listed h n \<and> r = rel_file d n)"
  show ?thesis
  proof (rule file_worker_invariant [where I = ?I and J = "\<lambda>d. ?I"])
    show "?I st" by simp
  next
    fix s :: state and d
    assume "?I s"
    then show "?I (s\<lparr>log := log s @ [File_scan (dir_abs a d)]\<rparr>)" by simp
  next
    fix s :: state and d des de
    assume d: "d \<in> set ds" and i: "?I s" and sc: "scandir h (dir_abs a d) = Inr des"
      and de: "de \<in> set des"
    have li: "listed h (name de)"
      using sc de by (auto simp: listed_def)
    from file_worker_entry_cases [of a h d de s]
    show "?I (file_worker_entry a h d de s)"
    proof
      assume "outs (file_worker_entry a h d de s) = outs s
          \<and> log (file_worker_entry a h d de s) = log s
          \<and> dirs_file (file_worker_entry a h d de s) = dirs_file s
          \<and> dir_q (file_worker_entry a h d de s) = dir_q s"
      then show ?thesis using i by simp
    next
      assume "is_file_nofollow de = Inr True \<and>
        (\<exists>f. fwrite (outs s ! fst (choose_out a h (rel_file d (name de)) d s))
                  (rel_file d (name de) @ [NUL]) = Inr f
           \<and> outs (file_worker_entry a h d de s)
               = (outs s)[fst (choose_out a h (rel_file d (name de)) d s) := f]
           \<and> log (file_worker_entry a h d de s)
               = log s @ [Out_write (fst (choose_out a h (rel_file d (name de)) d s))
                                     (rel_file d (name de))]
           \<and> dirs_file (file_worker_entry a h d de s) = dirs_file s
           \<and> dir_q (file_worker_entry a h d de s) = dir_q s)"
      then have lg: "log (file_worker_entry a h d de s)
               = log s @ [Out_write (fst (choose_out a h (rel_file d (name de)) d s))
                                     (rel_file d (name de))]"
        by blast
      have "\<exists>d' \<in> set ds. \<exists>n. listed h n \<and> rel_file d (name de) = rel_file d' n"
        using d li by blast
      then show ?thesis
        unfolding lg using i by auto
    qed
  qed simp
qed

subsection \<open>Records survive the file\<close>

lemma split_nul_terminated:
  "\<forall>r \<in> set rs. NUL \<notin> set r \<Longrightarrow>
   split_on_NUL [] (nul_terminated rs) = rs \<and> unterminated [] (nul_terminated rs) = []"
proof (induction rs)
  case Nil
  then show ?case by simp
next
  case (Cons r rs)
  then have n: "NUL \<notin> set r" by simp
  show ?case
    using Cons split_upto_NUL [OF n, of "[]"] unterminated_upto_NUL [OF n, of "[]"]
    by simp
qed

lemma whole_records_split:
  "whole_records xs \<Longrightarrow> split_on_NUL [] (xs @ ys) = split_on_NUL [] xs @ split_on_NUL [] ys"
  using split_append [of "[]" xs ys] by (simp add: whole_records_def)

lemma whole_records_append:
  "whole_records xs \<Longrightarrow> whole_records ys \<Longrightarrow> whole_records (xs @ ys)"
  by (simp add: whole_records_def unterminated_append)

lemma whole_records_nul_terminated: "whole_records (nul_terminated rs)"
proof (induction rs)
  case Nil
  then show ?case by (simp add: whole_records_def)
next
  case (Cons r rs)
  have "unterminated [] (r @ [NUL]) = []"
    by (simp add: unterminated_append)
  then have "whole_records (r @ [NUL])"
    by (simp add: whole_records_def)
  from whole_records_append [OF this Cons] show ?case by simp
qed

lemma decode_records_Inr:
  "decode_records rs = Inr ds \<Longrightarrow> ds = map (\<lambda>r. if r = [] then ''.'' else r) rs"
  by (induction rs arbitrary: ds) (auto simp: decode_def split: sum.splits if_splits)

lemma decode_records_ok:
  "\<forall>r \<in> set rs. utf8_ok r \<and> r \<noteq> [] \<Longrightarrow> decode_records rs = Inr rs"
  by (induction rs) (auto simp: decode_def)

lemma split_on_NUL_no_NUL:
  "NUL \<notin> set cur \<Longrightarrow> r \<in> set (split_on_NUL cur xs) \<Longrightarrow> NUL \<notin> set r"
proof (induction xs arbitrary: cur)
  case Nil
  then show ?case by simp
next
  case (Cons c xs)
  show ?case
  proof (cases "c = NUL")
    case True
    then have "r = cur \<or> r \<in> set (split_on_NUL [] xs)"
      using Cons.prems(2) by simp
    then show ?thesis
      using Cons.prems(1) Cons.IH [of "[]"] by auto
  next
    case False
    then have "r \<in> set (split_on_NUL (cur @ [c]) xs)"
      using Cons.prems(2) by simp
    then show ?thesis
      using Cons.prems(1) False Cons.IH [of "cur @ [c]"] by auto
  qed
qed

subsection \<open>The records of a run\<close>

lemma ledger_records_set: "set (ledger_records evs) = {r. Ledger_write r \<in> set evs}"
proof (induction evs)
  case Nil
  then show ?case by simp
next
  case (Cons e evs)
  then show ?case by (cases e) auto
qed

lemma run_ledger_records:
  assumes m: "main fuel a h dk = Some (Inr st)" and w: "wf_host h"
  shows "\<forall>r \<in> set (ledger_records (log st)).
           r = ''.'' \<or> (\<exists>ns. ns \<noteq> [] \<and> admitted a h ns \<and> r = join_all ns)"
    and "\<forall>e \<in> set (log st). clean_event a h e"
proof -
  from run_course [OF m] obtain f1 st2 os ds p2 where
    "course fuel a h dk st f1 st2 os ds p2"
    by blast
  then have dw: "dir_worker fuel a h (state_seeded a f1) = Some st2"
    and lg: "log st = log st2 @ [Workers1_joined, Ledger_closed] @ p2"
    and pe: "\<forall>e \<in> set p2. phase2_event e"
    unfolding course_def by blast+
  have q: "\<forall>p \<in> set (dir_q (state_seeded a f1)). \<exists>ns. admitted a h ns \<and> p = under_root a ns"
    by (simp add: state_seeded_def) (metis admitted_Nil foldl_Nil under_root_def)
  have l: "\<forall>e \<in> set (log (state_seeded a f1)). clean_event a h e"
    by (simp add: state_seeded_def) (metis admitted_Nil foldl_Nil under_root_def)
  have c: "\<forall>e \<in> set (log st2). clean_event a h e"
    by (rule phase1_clean [OF dw q l])
  have c2: "\<forall>e \<in> set p2. clean_event a h e"
  proof
    fix e assume "e \<in> set p2"
    then have "phase2_event e" using pe by simp
    then show "clean_event a h e" by (cases e) simp_all
  qed
  show all: "\<forall>e \<in> set (log st). clean_event a h e"
    unfolding lg using c c2 by auto
  show "\<forall>r \<in> set (ledger_records (log st)).
           r = ''.'' \<or> (\<exists>ns. ns \<noteq> [] \<and> admitted a h ns \<and> r = join_all ns)"
  proof
    fix r assume "r \<in> set (ledger_records (log st))"
    then have "Ledger_write r \<in> set (log st)"
      by (simp add: ledger_records_set)
    then have "clean_event a h (Ledger_write r)"
      using all by blast
    then show "r = ''.'' \<or> (\<exists>ns. ns \<noteq> [] \<and> admitted a h ns \<and> r = join_all ns)"
    proof (simp, elim disjE exE conjE)
      fix ns assume ns: "ns \<noteq> []" "admitted a h ns" "r = relpath (root a) (under_root a ns)"
      have "r = join_all ns"
        using ns relpath_under_root [OF admitted_wf [OF w ns(2)], of a] by simp
      then show "r = ''.'' \<or> (\<exists>ns. ns \<noteq> [] \<and> admitted a h ns \<and> r = join_all ns)"
        using ns by blast
    qed simp
  qed
qed

lemma run_dirs_in_put:
  assumes m: "main fuel a h dk = Some (Inr st)"
  shows "dirs_in_put (log st)
           = map (\<lambda>r. if r = [] then ''.'' else r)
               (split_on_NUL [] (content (dirs_nul dk) @ nul_terminated (ledger_records (log st))))"
    and "\<forall>i. \<forall>r \<in> set (out_records i (log st)).
           \<exists>d \<in> set (dirs_in_put (log st)). \<exists>n. listed h n \<and> r = rel_file d n"
proof -
  from run_course [OF m] obtain f1 st2 os ds p2 where
    "course fuel a h dk st f1 st2 os ds p2"
    by blast
  then have rd: "read_ledger (dirs_file st2) = Inr ds"
    and st: "st = (file_worker a h ds (state_listing st2 os ds))
              \<lparr>log := log (file_worker a h ds (state_listing st2 os ds)) @ [Outs_closed]\<rparr>"
    and c1: "content (dirs_file st2)
        = content (dirs_nul dk) @ nul_terminated (ledger_records (log st2))"
    and e1: "\<forall>e \<in> set (log st2). phase1_event e"
    and lg: "log st = log st2 @ [Workers1_joined, Ledger_closed] @ p2"
    and pe: "\<forall>e \<in> set p2. phase2_event e"
    and dp: "dirs_in_put p2 = ds"
    unfolding course_def by blast+
  have lr: "ledger_records (log st) = ledger_records (log st2)"
    using lg phase2_no_ledger_records [OF pe] by simp
  have dd: "dirs_in_put (log st) = ds"
    using lg dp phase1_no_out_records [OF e1] by simp
  show "dirs_in_put (log st)
           = map (\<lambda>r. if r = [] then ''.'' else r)
               (split_on_NUL [] (content (dirs_nul dk) @ nul_terminated (ledger_records (log st))))"
    using decode_records_Inr [of "split_on_NUL [] (content (dirs_file st2))" ds] rd
    by (simp add: read_ledger_eq c1 lr dd)
  have o3: "out_records j (log (state_listing st2 os ds)) = []" for j
  proof -
    have "out_records j (map Dir_in_put ds) = []"
      by (induction ds) auto
    then show ?thesis
      using phase1_no_out_records [OF e1] by (simp add: state_listing_def)
  qed
  have os: "out_records j (log st) = out_records j (log (file_worker a h ds (state_listing st2 os ds)))"
    for j
    by (subst st) simp
  show "\<forall>i. \<forall>r \<in> set (out_records i (log st)).
           \<exists>d \<in> set (dirs_in_put (log st)). \<exists>n. listed h n \<and> r = rel_file d n"
    using phase2_out_records [of a h ds "state_listing st2 os ds"]
    by (simp add: os o3 dd)
qed

lemma run_dirs_plain:
  assumes m: "main fuel a h dk = Some (Inr st)"
  shows "\<forall>d \<in> set (dirs_in_put (log st)). d \<noteq> [] \<and> NUL \<notin> set d"
proof
  fix d assume "d \<in> set (dirs_in_put (log st))"
  then obtain r where
    r: "r \<in> set (split_on_NUL [] (content (dirs_nul dk) @ nul_terminated (ledger_records (log st))))"
    and d: "d = (if r = [] then ''.'' else r)"
    unfolding run_dirs_in_put(1) [OF m] by auto
  have "NUL \<notin> set r"
    by (rule split_on_NUL_no_NUL [OF _ r]) simp
  then show "d \<noteq> [] \<and> NUL \<notin> set d"
    using d by auto
qed

lemma ex_wf_host: "wf_host ex_host"
  by (auto simp: wf_host_def ex_host_def wf_name_def ent_dir_def ent_file_def ent_denied_def
      split: if_splits)

lemma rel_file_plain:
  assumes "d \<noteq> []" "NUL \<notin> set d" "wf_name n"
  shows "rel_file d n \<noteq> [] \<and> NUL \<notin> set (rel_file d n)"
  using assms by (auto simp: rel_file_def wf_name_def)

subsection \<open>The NUL-delimited encoding\<close>

text \<open>
  C6. A sequence of paths, each not empty, free of NUL and a valid string, written as its
  encoded bytes followed by one NUL each, is recovered exactly and in order by splitting
  the bytes on NUL, and by the reader of phase 2. On a host that keeps the rules for entry
  names, every path a run writes, to the Ledger or to an output, is not empty and holds no
  NUL, so the records written to each file are recovered from its bytes.
\<close>

theorem nul_records_roundtrip:
  "((\<forall>p \<in> set ps. p \<noteq> [] \<and> NUL \<notin> set (encode p) \<and> utf8_ok (encode p)) \<longrightarrow>
       split_on_NUL [] (nul_terminated ps) = map encode ps
     \<and> unterminated [] (nul_terminated ps) = []
     \<and> read_ledger \<lparr>content = nul_terminated ps, room = rm\<rparr> = Inr ps)
 \<and> (main fuel a h dk = Some (Inr st) \<and> wf_host h \<longrightarrow>
       (\<forall>r \<in> set (ledger_records (log st)). r \<noteq> [] \<and> NUL \<notin> set (encode r))
     \<and> (\<forall>i. \<forall>r \<in> set (out_records i (log st)). r \<noteq> [] \<and> NUL \<notin> set (encode r))
     \<and> split_on_NUL [] (nul_terminated (ledger_records (log st)))
         = map encode (ledger_records (log st))
     \<and> (\<forall>i. split_on_NUL [] (nul_terminated (out_records i (log st)))
              = map encode (out_records i (log st))))"
proof (intro conjI impI)
  assume a: "\<forall>p \<in> set ps. p \<noteq> [] \<and> NUL \<notin> set (encode p) \<and> utf8_ok (encode p)"
  then have n: "\<forall>r \<in> set ps. NUL \<notin> set r" and u: "\<forall>r \<in> set ps. utf8_ok r \<and> r \<noteq> []"
    by (simp_all add: encode_def)
  have e: "map encode ps = ps"
    by (induction ps) (simp_all add: encode_def)
  show "split_on_NUL [] (nul_terminated ps) = map encode ps"
    using split_nul_terminated [OF n] e by simp
  show "unterminated [] (nul_terminated ps) = []"
    using split_nul_terminated [OF n] by simp
  show "read_ledger \<lparr>content = nul_terminated ps, room = rm\<rparr> = Inr ps"
    using split_nul_terminated [OF n] decode_records_ok [OF u] by (simp add: read_ledger_eq)
next
  assume "main fuel a h dk = Some (Inr st) \<and> wf_host h"
  then have m: "main fuel a h dk = Some (Inr st)" and w: "wf_host h"
    by simp_all
  have e: "map encode rs = rs" for rs
    by (induction rs) (simp_all add: encode_def)
  show l: "\<forall>r \<in> set (ledger_records (log st)). r \<noteq> [] \<and> NUL \<notin> set (encode r)"
  proof
    fix r assume "r \<in> set (ledger_records (log st))"
    with run_ledger_records(1) [OF m w] have
      "r = ''.'' \<or> (\<exists>ns. ns \<noteq> [] \<and> admitted a h ns \<and> r = join_all ns)"
      by blast
    then show "r \<noteq> [] \<and> NUL \<notin> set (encode r)"
    proof (elim disjE exE conjE)
      assume "r = ''.''"
      then show ?thesis by (simp add: encode_def)
    next
      fix ns assume ns: "ns \<noteq> []" "admitted a h ns" "r = join_all ns"
      from join_all_names [OF ns(1) admitted_wf [OF w ns(2)]] ns(3)
      show ?thesis by (simp add: encode_def)
    qed
  qed
  show o: "\<forall>i. \<forall>r \<in> set (out_records i (log st)). r \<noteq> [] \<and> NUL \<notin> set (encode r)"
  proof (intro allI ballI)
    fix i r assume "r \<in> set (out_records i (log st))"
    with run_dirs_in_put(2) [OF m] obtain d n where
      d: "d \<in> set (dirs_in_put (log st))" and n: "listed h n" and r: "r = rel_file d n"
      by blast
    from run_dirs_plain [OF m] d have "d \<noteq> []" "NUL \<notin> set d"
      by simp_all
    from rel_file_plain [OF this listed_wf [OF w n]] r
    show "r \<noteq> [] \<and> NUL \<notin> set (encode r)"
      by (simp add: encode_def)
  qed
  have "\<forall>r \<in> set (ledger_records (log st)). NUL \<notin> set r"
    using l by (simp add: encode_def)
  from split_nul_terminated [OF this]
  show "split_on_NUL [] (nul_terminated (ledger_records (log st)))
         = map encode (ledger_records (log st))"
    by (simp add: e)
  show "\<forall>i. split_on_NUL [] (nul_terminated (out_records i (log st)))
              = map encode (out_records i (log st))"
  proof
    fix i
    have "\<forall>r \<in> set (out_records i (log st)). NUL \<notin> set r"
      using o by (simp add: encode_def)
    from split_nul_terminated [OF this]
    show "split_on_NUL [] (nul_terminated (out_records i (log st)))
              = map encode (out_records i (log st))"
      by (simp add: e)
  qed
qed

theorem nul_records_roundtrip_witness:
  "read_ledger \<lparr>content = nul_terminated [''.'', ''a''], room = None\<rparr> = Inr [''.'', ''a'']
   \<and> main 2 ex_args ex_host ex_disk = Some (Inr ex_final)
   \<and> wf_host ex_host
   \<and> split_on_NUL [] (nul_terminated (ledger_records (log ex_final))) = [''.'', ''a'']
   \<and> split_on_NUL [] (nul_terminated (out_records 1 (log ex_final))) = [''a/x'']"
proof -
  have p: "\<forall>p \<in> set [''.'', ''a'']. p \<noteq> [] \<and> NUL \<notin> set (encode p) \<and> utf8_ok (encode p)"
    by (simp add: encode_def byte_in_def)
  note t = nul_records_roundtrip [where ps = "[''.'', ''a'']" and rm = None and fuel = 2
      and a = ex_args and h = ex_host and dk = ex_disk and st = ex_final]
  have 1: "read_ledger \<lparr>content = nul_terminated [''.'', ''a''], room = None\<rparr> = Inr [''.'', ''a'']"
    using t p by blast
  have 2: "split_on_NUL [] (nul_terminated (ledger_records (log ex_final)))
      = map encode (ledger_records (log ex_final))"
    using t ex_run ex_wf_host by blast
  have 3: "split_on_NUL [] (nul_terminated (out_records 1 (log ex_final)))
      = map encode (out_records 1 (log ex_final))"
    using t ex_run ex_wf_host by blast
  show ?thesis
    using 1 2 3 ex_run ex_wf_host by (simp add: ex_final_fields encode_def)
qed

subsection \<open>Relative paths of files\<close>

lemma run_ledger_plain:
  assumes m: "main fuel a h dk = Some (Inr st)" and w: "wf_host h"
  shows "\<forall>r \<in> set (ledger_records (log st)). r \<noteq> [] \<and> hd r \<noteq> sep \<and> NUL \<notin> set r"
proof
  fix r assume "r \<in> set (ledger_records (log st))"
  with run_ledger_records(1) [OF m w] have
    "r = ''.'' \<or> (\<exists>ns. ns \<noteq> [] \<and> admitted a h ns \<and> r = join_all ns)"
    by blast
  then show "r \<noteq> [] \<and> hd r \<noteq> sep \<and> NUL \<notin> set r"
  proof (elim disjE exE conjE)
    assume "r = ''.''"
    then show ?thesis by simp
  next
    fix ns assume ns: "ns \<noteq> []" "admitted a h ns" "r = join_all ns"
    from join_all_names [OF ns(1) admitted_wf [OF w ns(2)]] ns(3)
    show ?thesis by simp
  qed
qed

lemma run_dirs_origin:
  assumes m: "main fuel a h dk = Some (Inr st)" and w: "wf_host h"
    and wr: "whole_records (content (dirs_nul dk))"
  shows "\<forall>d \<in> set (dirs_in_put (log st)).
           d = ''.''
         \<or> (d \<noteq> [] \<and> d \<in> set (split_on_NUL [] (content (dirs_nul dk))))
         \<or> (\<exists>ns. ns \<noteq> [] \<and> admitted a h ns \<and> d = join_all ns)"
proof
  fix d assume "d \<in> set (dirs_in_put (log st))"
  then obtain r where
    r: "r \<in> set (split_on_NUL [] (content (dirs_nul dk) @ nul_terminated (ledger_records (log st))))"
    and d: "d = (if r = [] then ''.'' else r)"
    unfolding run_dirs_in_put(1) [OF m] by auto
  have n: "\<forall>r \<in> set (ledger_records (log st)). NUL \<notin> set r"
    using run_ledger_plain [OF m w] by simp
  have "split_on_NUL [] (content (dirs_nul dk) @ nul_terminated (ledger_records (log st)))
      = split_on_NUL [] (content (dirs_nul dk)) @ ledger_records (log st)"
    using whole_records_split [OF wr] split_nul_terminated [OF n] by simp
  then have "r \<in> set (split_on_NUL [] (content (dirs_nul dk))) \<or> r \<in> set (ledger_records (log st))"
    using r by auto
  then show "d = ''.''
         \<or> (d \<noteq> [] \<and> d \<in> set (split_on_NUL [] (content (dirs_nul dk))))
         \<or> (\<exists>ns. ns \<noteq> [] \<and> admitted a h ns \<and> d = join_all ns)"
  proof
    assume "r \<in> set (split_on_NUL [] (content (dirs_nul dk)))"
    then show ?thesis using d by auto
  next
    assume "r \<in> set (ledger_records (log st))"
    with run_ledger_records(1) [OF m w] have
      "r = ''.'' \<or> (\<exists>ns. ns \<noteq> [] \<and> admitted a h ns \<and> r = join_all ns)"
      by blast
    then show ?thesis
    proof (elim disjE exE conjE)
      assume "r = ''.''"
      then show ?thesis using d by simp
    next
      fix ns assume ns: "ns \<noteq> []" "admitted a h ns" "r = join_all ns"
      from join_all_names [OF ns(1) admitted_wf [OF w ns(2)]] ns(3)
      have "r \<noteq> []" by simp
      then show ?thesis using d ns by auto
    qed
  qed
qed

text \<open>
  C5. Every record \<^verbatim>\<open>file_worker\<close> writes is the name of a listed entry, alone when the
  directory is \<^verbatim>\<open>"."\<close>, and else the relative path of the directory, a separator and the
  name. No such record begins with a separator, on a host that keeps the rules for entry
  names and with a Ledger file that, when the run starts, holds whole records none of which
  begins with a separator (as every Ledger this program wrote does, and an absent one).
\<close>

theorem file_records_relative:
  assumes "main fuel a h dk = Some (Inr st)" and "wf_host h"
  shows "(\<forall>i. \<forall>r \<in> set (out_records i (log st)).
            \<exists>d \<in> set (dirs_in_put (log st)). \<exists>n. listed h n
               \<and> r = (if d = ''.'' then n else d @ [sep] @ n))
       \<and> (whole_records (content (dirs_nul dk))
            \<and> (\<forall>r \<in> set (split_on_NUL [] (content (dirs_nul dk))). r = [] \<or> hd r \<noteq> sep)
          \<longrightarrow> (\<forall>i. \<forall>r \<in> set (out_records i (log st)). r \<noteq> [] \<and> hd r \<noteq> sep))"
proof (intro conjI impI)
  show "\<forall>i. \<forall>r \<in> set (out_records i (log st)).
            \<exists>d \<in> set (dirs_in_put (log st)). \<exists>n. listed h n
               \<and> r = (if d = ''.'' then n else d @ [sep] @ n)"
    using run_dirs_in_put(2) [OF assms(1)] by (simp add: rel_file_def)
next
  assume "whole_records (content (dirs_nul dk))
            \<and> (\<forall>r \<in> set (split_on_NUL [] (content (dirs_nul dk))). r = [] \<or> hd r \<noteq> sep)"
  then have wr: "whole_records (content (dirs_nul dk))"
    and l0: "\<forall>r \<in> set (split_on_NUL [] (content (dirs_nul dk))). r = [] \<or> hd r \<noteq> sep"
    by simp_all
  show "\<forall>i. \<forall>r \<in> set (out_records i (log st)). r \<noteq> [] \<and> hd r \<noteq> sep"
  proof (intro allI ballI)
    fix i r assume "r \<in> set (out_records i (log st))"
    with run_dirs_in_put(2) [OF assms(1)] obtain d n where
      d: "d \<in> set (dirs_in_put (log st))" and n: "listed h n" and r: "r = rel_file d n"
      by blast
    have wn: "wf_name n"
      by (rule listed_wf [OF assms(2) n])
    then have n1: "n \<noteq> []" "hd n \<noteq> sep"
      by (auto simp: wf_name_def) (metis hd_in_set)
    from run_dirs_origin [OF assms wr] d have
      "d = ''.''
         \<or> (d \<noteq> [] \<and> d \<in> set (split_on_NUL [] (content (dirs_nul dk))))
         \<or> (\<exists>ns. ns \<noteq> [] \<and> admitted a h ns \<and> d = join_all ns)"
      by blast
    then have "d = ''.'' \<or> (d \<noteq> [] \<and> hd d \<noteq> sep)"
    proof (elim disjE exE conjE)
      fix ns assume ns: "ns \<noteq> []" "admitted a h ns" "d = join_all ns"
      from join_all_names [OF ns(1) admitted_wf [OF assms(2) ns(2)]] ns(3)
      show ?thesis by simp
    qed (use l0 in auto)
    then show "r \<noteq> [] \<and> hd r \<noteq> sep"
      using r n1 by (auto simp: rel_file_def)
  qed
qed

theorem file_records_relative_witness:
  "main 2 ex_args ex_host ex_disk = Some (Inr ex_final) \<and> wf_host ex_host
   \<and> whole_records (content (dirs_nul ex_disk))
   \<and> out_records 1 (log ex_final) = [''a'' @ [sep] @ ''x'']
   \<and> hd (''a'' @ [sep] @ ''x'') \<noteq> sep"
proof -
  have l: "whole_records (content (dirs_nul ex_disk))
            \<and> (\<forall>r \<in> set (split_on_NUL [] (content (dirs_nul ex_disk))). r = [] \<or> hd r \<noteq> sep)"
    by (simp add: ex_disk_fields whole_records_def)
  have o: "out_records 1 (log ex_final) = [''a'' @ [sep] @ ''x'']"
    by (simp add: ex_final_fields)
  from file_records_relative [OF ex_run ex_wf_host] l
  have "\<forall>i. \<forall>r \<in> set (out_records i (log ex_final)). r \<noteq> [] \<and> hd r \<noteq> sep"
    by blast
  then have "hd (''a'' @ [sep] @ ''x'') \<noteq> sep"
    using o by simp
  then show ?thesis
    using ex_run ex_wf_host l o by simp
qed

subsection \<open>Excluded directories\<close>

lemma under_root_inj:
  assumes "\<forall>n \<in> set ns. wf_name n" and "\<forall>n \<in> set ms. wf_name n"
    and "under_root a ns = under_root a ms"
  shows "ns = ms"
proof -
  have "abs_comps (root a) @ ns = abs_comps (under_root a ns)"
    by (rule abs_comps_under_root [OF assms(1), symmetric])
  also have "\<dots> = abs_comps (under_root a ms)"
    by (simp only: assms(3))
  also have "\<dots> = abs_comps (root a) @ ms"
    by (rule abs_comps_under_root [OF assms(2)])
  finally show ?thesis by simp
qed

lemma phase2_file_scans:
  "\<forall>p. File_scan p \<in> set (log (file_worker a h ds st)) \<longrightarrow>
      File_scan p \<in> set (log st) \<or> (\<exists>d \<in> set ds. p = dir_abs a d)"
proof -
  let ?I = "\<lambda>s :: state. \<forall>p. File_scan p \<in> set (log s) \<longrightarrow>
      File_scan p \<in> set (log st) \<or> (\<exists>d \<in> set ds. p = dir_abs a d)"
  show ?thesis
  proof (rule file_worker_invariant [where I = ?I and J = "\<lambda>d. ?I"])
    show "?I st" by simp
  next
    fix s :: state and d
    assume "d \<in> set ds" "?I s"
    then show "?I (s\<lparr>log := log s @ [File_scan (dir_abs a d)]\<rparr>)" by auto
  next
    fix s :: state and d des de
    assume i: "?I s"
    from file_worker_entry_cases [of a h d de s]
    show "?I (file_worker_entry a h d de s)"
      using i by auto
  qed simp
qed


lemma run_file_scans:
  assumes m: "main fuel a h dk = Some (Inr st)"
  shows "\<forall>p. File_scan p \<in> set (log st) \<longrightarrow> (\<exists>d \<in> set (dirs_in_put (log st)). p = dir_abs a d)"
proof -
  from run_course [OF m] obtain f1 st2 os ds p2 where
    "course fuel a h dk st f1 st2 os ds p2"
    by blast
  then have st: "st = (file_worker a h ds (state_listing st2 os ds))
              \<lparr>log := log (file_worker a h ds (state_listing st2 os ds)) @ [Outs_closed]\<rparr>"
    and e1: "\<forall>e \<in> set (log st2). phase1_event e"
    and lg: "log st = log st2 @ [Workers1_joined, Ledger_closed] @ p2"
    and dp: "dirs_in_put p2 = ds"
    unfolding course_def by blast+
  have dd: "dirs_in_put (log st) = ds"
    using lg dp phase1_no_out_records [OF e1] by simp
  have n1: "File_scan p \<notin> set (log st2)" for p
    using e1 by auto
  have n3: "File_scan p \<notin> set (log (state_listing st2 os ds))" for p
    using n1 by (auto simp: state_listing_def)
  have "File_scan p \<in> set (log st) \<longrightarrow> File_scan p \<in> set (log (file_worker a h ds (state_listing st2 os ds)))"
    for p
    by (subst st) simp
  then show ?thesis
    using phase2_file_scans [of a h ds "state_listing st2 os ds"] n3 dd by blast
qed

text \<open>
  C4, amended. Phase 1 never puts in its queue, never scans and never records a path that
  has an excluded name below the root: every path it puts in the queue or scans is the root
  joined with names that the host lists and that are outside the exclusion set, so the root
  joined with names of which one is excluded is neither put nor scanned, and no component of
  a Ledger record other than the root's \<^verbatim>\<open>"."\<close> is an excluded name. Phase 2 scans the
  directories it reads from the Ledger and nothing else; when the Ledger file at the start
  of the run holds whole records, none with an excluded component, no directory it lists
  and no directory component of a file it emits is an excluded name.
\<close>

theorem excluded_not_followed:
  assumes "main fuel a h dk = Some (Inr st)" and "wf_host h"
  shows "(\<forall>p. Dir_put p \<in> set (log st) \<or> Dir_scan p \<in> set (log st) \<longrightarrow>
            (\<exists>ns. admitted a h ns \<and> p = under_root a ns))
       \<and> (\<forall>ms n ks. n \<in> set (exclude a) \<and> (\<forall>m \<in> set (ms @ n # ks). wf_name m) \<longrightarrow>
            Dir_put (under_root a (ms @ n # ks)) \<notin> set (log st)
          \<and> Dir_scan (under_root a (ms @ n # ks)) \<notin> set (log st))
       \<and> (\<forall>r \<in> set (ledger_records (log st)).
            r = ''.'' \<or> (\<forall>c \<in> set (split_sep r). c \<notin> set (exclude a)))
       \<and> (\<forall>p. File_scan p \<in> set (log st) \<longrightarrow>
            (\<exists>d \<in> set (dirs_in_put (log st)). p = dir_abs a d))
       \<and> (whole_records (content (dirs_nul dk))
            \<and> (\<forall>r \<in> set (split_on_NUL [] (content (dirs_nul dk))).
                   r = [] \<or> r = ''.'' \<or> (\<forall>c \<in> set (split_sep r). c \<notin> set (exclude a)))
          \<longrightarrow> (\<forall>d \<in> set (dirs_in_put (log st)).
                   d = ''.'' \<or> (\<forall>c \<in> set (split_sep d). c \<notin> set (exclude a)))
              \<and> (\<forall>i. \<forall>r \<in> set (out_records i (log st)).
                   \<forall>c \<in> set (butlast (split_sep r)). c \<notin> set (exclude a)))"
proof (intro conjI impI allI)
  fix p
  assume "Dir_put p \<in> set (log st) \<or> Dir_scan p \<in> set (log st)"
  with run_ledger_records(2) [OF assms]
  have "clean_event a h (Dir_put p) \<or> clean_event a h (Dir_scan p)"
    by blast
  then show "\<exists>ns. admitted a h ns \<and> p = under_root a ns"
    by auto
next
  fix ms n ks
  assume x: "n \<in> set (exclude a) \<and> (\<forall>m \<in> set (ms @ n # ks). wf_name m)"
  have no: "\<not> (\<exists>ns. admitted a h ns \<and> under_root a (ms @ n # ks) = under_root a ns)"
  proof
    assume "\<exists>ns. admitted a h ns \<and> under_root a (ms @ n # ks) = under_root a ns"
    then obtain ns where ns: "admitted a h ns" "under_root a (ms @ n # ks) = under_root a ns"
      by blast
    have w1: "\<forall>m \<in> set (ms @ n # ks). wf_name m"
      using x by blast
    from under_root_inj [OF w1 admitted_wf [OF assms(2) ns(1)] ns(2)]
    have "n \<in> set ns" by auto
    then show False
      using ns(1) x by (simp add: admitted_def)
  qed
  show "Dir_put (under_root a (ms @ n # ks)) \<notin> set (log st)"
  proof
    assume "Dir_put (under_root a (ms @ n # ks)) \<in> set (log st)"
    with run_ledger_records(2) [OF assms]
    have "clean_event a h (Dir_put (under_root a (ms @ n # ks)))"
      by blast
    then show False using no by simp
  qed
  show "Dir_scan (under_root a (ms @ n # ks)) \<notin> set (log st)"
  proof
    assume "Dir_scan (under_root a (ms @ n # ks)) \<in> set (log st)"
    with run_ledger_records(2) [OF assms]
    have "clean_event a h (Dir_scan (under_root a (ms @ n # ks)))"
      by blast
    then show False using no by simp
  qed
next
  show "\<forall>r \<in> set (ledger_records (log st)).
            r = ''.'' \<or> (\<forall>c \<in> set (split_sep r). c \<notin> set (exclude a))"
  proof
    fix r assume "r \<in> set (ledger_records (log st))"
    with run_ledger_records(1) [OF assms] have
      "r = ''.'' \<or> (\<exists>ns. ns \<noteq> [] \<and> admitted a h ns \<and> r = join_all ns)"
      by blast
    then show "r = ''.'' \<or> (\<forall>c \<in> set (split_sep r). c \<notin> set (exclude a))"
    proof (elim disjE exE conjE)
      fix ns assume ns: "ns \<noteq> []" "admitted a h ns" "r = join_all ns"
      from join_all_names [OF ns(1) admitted_wf [OF assms(2) ns(2)]] ns(3)
      have "split_sep r = ns" by simp
      then show ?thesis using ns(2) by (simp add: admitted_def)
    qed simp
  qed
next
  fix p
  assume "File_scan p \<in> set (log st)"
  with run_file_scans [OF assms(1)]
  show "\<exists>d \<in> set (dirs_in_put (log st)). p = dir_abs a d"
    by blast
next
  assume "whole_records (content (dirs_nul dk))
            \<and> (\<forall>r \<in> set (split_on_NUL [] (content (dirs_nul dk))).
                   r = [] \<or> r = ''.'' \<or> (\<forall>c \<in> set (split_sep r). c \<notin> set (exclude a)))"
  then have wr: "whole_records (content (dirs_nul dk))"
    and l0: "\<forall>r \<in> set (split_on_NUL [] (content (dirs_nul dk))).
                   r = [] \<or> r = ''.'' \<or> (\<forall>c \<in> set (split_sep r). c \<notin> set (exclude a))"
    by simp_all
  show dd: "\<forall>d \<in> set (dirs_in_put (log st)).
                   d = ''.'' \<or> (\<forall>c \<in> set (split_sep d). c \<notin> set (exclude a))"
  proof
    fix d assume "d \<in> set (dirs_in_put (log st))"
    with run_dirs_origin [OF assms wr] have
      "d = ''.''
         \<or> (d \<noteq> [] \<and> d \<in> set (split_on_NUL [] (content (dirs_nul dk))))
         \<or> (\<exists>ns. ns \<noteq> [] \<and> admitted a h ns \<and> d = join_all ns)"
      by blast
    then show "d = ''.'' \<or> (\<forall>c \<in> set (split_sep d). c \<notin> set (exclude a))"
    proof (elim disjE exE conjE)
      fix ns assume ns: "ns \<noteq> []" "admitted a h ns" "d = join_all ns"
      from join_all_names [OF ns(1) admitted_wf [OF assms(2) ns(2)]] ns(3)
      have "split_sep d = ns" by simp
      then show ?thesis using ns(2) by (simp add: admitted_def)
    qed (use l0 in auto)
  qed
  show "\<forall>r \<in> set (out_records i (log st)).
           \<forall>c \<in> set (butlast (split_sep r)). c \<notin> set (exclude a)" for i
  proof
    fix r assume "r \<in> set (out_records i (log st))"
    with run_dirs_in_put(2) [OF assms(1)] obtain d n where
      d: "d \<in> set (dirs_in_put (log st))" and n: "listed h n" and r: "r = rel_file d n"
      by blast
    have "sep \<notin> set n"
      using listed_wf [OF assms(2) n] by (simp add: wf_name_def)
    then have sn: "split_sep n = [n]"
      by (rule split_sep_no_sep)
    show "\<forall>c \<in> set (butlast (split_sep r)). c \<notin> set (exclude a)"
    proof (cases "d = ''.''")
      case True
      then show ?thesis using r sn by (simp add: rel_file_def)
    next
      case False
      then have "split_sep r = split_sep d @ [n]"
        using r sn by (simp add: rel_file_def split_sep_append)
      then show ?thesis
        using dd d False by auto
    qed
  qed
qed

theorem excluded_not_followed_witness:
  "main 2 ex_args ex_host ex_disk = Some (Inr ex_final) \<and> wf_host ex_host
   \<and> whole_records (content (dirs_nul ex_disk))
   \<and> exclude ex_args = [''b'']
   \<and> Dir_put ''/r/b'' \<notin> set (log ex_final)
   \<and> Dir_scan ''/r/b'' \<notin> set (log ex_final)
   \<and> ledger_records (log ex_final) = [''.'', ''a'']
   \<and> ''a'' \<notin> set (exclude ex_args)
   \<and> out_records (Suc 0) (log ex_final) = [''a/x'']"
proof -
  have l: "whole_records (content (dirs_nul ex_disk))
            \<and> (\<forall>r \<in> set (split_on_NUL [] (content (dirs_nul ex_disk))).
                   r = [] \<or> r = ''.'' \<or> (\<forall>c \<in> set (split_sep r). c \<notin> set (exclude ex_args)))"
    by (simp add: ex_disk_fields whole_records_def)
  note t = excluded_not_followed [OF ex_run ex_wf_host]
  note b = t [THEN conjunct2, THEN conjunct2, THEN conjunct2, THEN conjunct2,
      THEN mp, OF l, THEN conjunct2, THEN spec, of "Suc 0"]
  have "\<forall>c \<in> set (butlast (split_sep ''a/x'')). c \<notin> set (exclude ex_args)"
    using b by (simp add: ex_final_fields)
  then have a: "''a'' \<notin> set (exclude ex_args)"
    by simp
  have x: "''b'' \<in> set (exclude ex_args) \<and> (\<forall>m \<in> set ([] @ ''b'' # []). wf_name m)"
    by (simp add: ex_fields wf_name_def)
  have u: "under_root ex_args ([] @ ''b'' # []) = ''/r/b''"
    by (simp add: under_root_def ex_fields os_path_join_def)
  note n = t [THEN conjunct2, THEN conjunct1, THEN spec, THEN spec, THEN spec, THEN mp, OF x]
  have nb: "Dir_put ''/r/b'' \<notin> set (log ex_final) \<and> Dir_scan ''/r/b'' \<notin> set (log ex_final)"
    using n unfolding u .
  show ?thesis
    using ex_run ex_wf_host l a nb by (simp add: ex_final_fields ex_fields)
qed

text \<open>
  C4 as stated fails: \<^verbatim>\<open>b\<close> is excluded and phase 1 leaves it out, but the Ledger file
  already holds the record of \<^verbatim>\<open>b\<close>; phase 2 reads the whole file, lists \<^verbatim>\<open>b\<close> and emits
  the file below it.
\<close>

theorem stale_ledger_lists_excluded:
  "exclude ex_manifest_args = [''b'']
   \<and> content (dirs_nul ex_stale_disk) = ''b'' @ [NUL]
   \<and> outcome (main 2 ex_manifest_args ex_host ex_stale_disk)
       = Some (Inr (''b'' @ [NUL] @ ''.'' @ [NUL] @ ''a'' @ [NUL],
                    [''b/y'' @ [NUL] @ ''f'' @ [NUL] @ ''a/x'' @ [NUL]]))"
proof -
  have dn: "dirs_nul ex_stale_disk = \<lparr>content = [CHR ''b'', NUL], room = None\<rparr>"
    "manifest ex_stale_disk = \<lparr>content = [], room = None\<rparr>"
    by (simp_all add: ex_stale_disk_def ex_disk_def new_file_def)
  have p1: "dir_worker 2 ex_manifest_args ex_host
     \<lparr>dirs_file = \<lparr>content = [CHR ''b'', NUL, CHR ''.'', NUL], room = None\<rparr>,
      dirs_emitted = Suc 0, dir_q = [''/r''], outs = [], rr_counter = 0, files_emitted = 0,
      log = [Ledger_write ''.'', Dir_put ''/r'']\<rparr>
   = Some \<lparr>dirs_file = \<lparr>content = [CHR ''b'', NUL, CHR ''.'', NUL, CHR ''a'', NUL], room = None\<rparr>,
      dirs_emitted = Suc (Suc 0), dir_q = [], outs = [], rr_counter = 0, files_emitted = 0,
      log = [Ledger_write ''.'', Dir_put ''/r'', Dir_scan ''/r'', Ledger_write ''a'',
             Dir_put ''/r/a'', Dir_scan ''/r/a'']\<rparr>"
    by (simp add: dir_worker.simps dir_worker_item_def dir_worker_entry_def emit_dir_simp fwrite_def
      ex_manifest_fields ex_host_fields ent_dir_def ent_file_def ent_denied_def ex_relpath_a
      os_path_join_def)
  have rd: "read_ledger \<lparr>content = [CHR ''b'', NUL, CHR ''.'', NUL, CHR ''a'', NUL], room = None\<rparr>
      = Inr [''b'', ''.'', ''a'']"
    by (simp add: read_ledger_eq decode_def byte_in_def)
  have op: "open_outputs (out_manifest ex_manifest_args) (outdir ex_manifest_args)
      (shards ex_manifest_args) ex_stale_disk = Inr [\<lparr>content = [], room = None\<rparr>]"
    by (simp add: open_outputs_def fopen_def dn ex_manifest_fields)
  have ch: "length (outs s) = 1 \<Longrightarrow> choose_out ex_manifest_args ex_host p d s = (0, s)" for s p d
    by (simp add: choose_out_def)
  have fw: "file_worker ex_manifest_args ex_host [''b'', ''.'', ''a'']
     \<lparr>dirs_file = df, dirs_emitted = k, dir_q = [], outs = [\<lparr>content = [], room = None\<rparr>],
      rr_counter = 0, files_emitted = 0, log = l\<rparr>
   = \<lparr>dirs_file = df, dirs_emitted = k, dir_q = [],
      outs = [\<lparr>content = [CHR ''b'', sep, CHR ''y'', NUL, CHR ''f'', NUL,
                         CHR ''a'', sep, CHR ''x'', NUL], room = None\<rparr>],
      rr_counter = 0, files_emitted = Suc (Suc (Suc 0)),
      log = l @ [File_scan ''/r/b'', Out_write 0 ''b/y'', File_scan ''/r'', Out_write 0 ''f'',
                 File_scan ''/r/a'', Out_write 0 ''a/x'']\<rparr>" for df k l
    by (simp add: file_worker_def file_worker_item_def file_worker_entry_simp ch fwrite_def
      ex_manifest_fields ex_host_fields ent_dir_def ent_file_def ent_denied_def Let_def
      os_path_join_def)
  have p2: "outcome (Some (main_phase2 ex_manifest_args ex_host ex_stale_disk
     \<lparr>dirs_file = \<lparr>content = [CHR ''b'', NUL, CHR ''.'', NUL, CHR ''a'', NUL], room = None\<rparr>,
      dirs_emitted = Suc (Suc 0), dir_q = [], outs = [], rr_counter = 0, files_emitted = 0,
      log = [Ledger_write ''.'', Dir_put ''/r'', Dir_scan ''/r'', Ledger_write ''a'',
             Dir_put ''/r/a'', Dir_scan ''/r/a'', Workers1_joined, Ledger_closed]\<rparr>))
   = Some (Inr ([CHR ''b'', NUL, CHR ''.'', NUL, CHR ''a'', NUL],
                [[CHR ''b'', sep, CHR ''y'', NUL, CHR ''f'', NUL, CHR ''a'', sep, CHR ''x'', NUL]]))"
    by (simp add: main_phase2_def op rd fw outcome_def)
  have m: "outcome (main 2 ex_manifest_args ex_host ex_stale_disk)
   = Some (Inr ([CHR ''b'', NUL, CHR ''.'', NUL, CHR ''a'', NUL],
                [[CHR ''b'', sep, CHR ''y'', NUL, CHR ''f'', NUL, CHR ''a'', sep, CHR ''x'', NUL]]))"
    by (simp add: main_def ex_manifest_fields ex_host_fields emit_dir_simp fwrite_def fopen_def
        dn p1 p2)
  show ?thesis
    using m by (simp add: ex_manifest_fields dn)
qed

subsection \<open>Two runs on the same tree\<close>

lemma dir_worker_entry_unlimited:
  assumes "unlimited (dirs_file s)"
  shows "dir_worker_entry a d de s =
     (if (if follow_symlinks a then is_dir_follow de else is_dir_nofollow de) = Inr True
          \<and> name de \<notin> set (exclude a)
      then s\<lparr>dirs_file := (dirs_file s)\<lparr>content := content (dirs_file s)
                               @ relpath (root a) (os_path_join d (name de)) @ [NUL]\<rparr>,
             dirs_emitted := dirs_emitted s + 1,
             dir_q := dir_q s @ [os_path_join d (name de)],
             log := log s @ [Ledger_write (relpath (root a) (os_path_join d (name de))),
                             Dir_put (os_path_join d (name de))]\<rparr>
      else s)"
  using assms
  by (auto simp: dir_worker_entry_def emit_dir_simp fwrite_unlimited unlimited_def
      split: sum.splits)

lemma dir_worker_entry_sim:
  assumes "dir_q s = dir_q t \<and> log s = log t \<and> unlimited (dirs_file s) \<and> unlimited (dirs_file t)"
  shows "dir_q (dir_worker_entry a d de s) = dir_q (dir_worker_entry a d de t)
       \<and> log (dir_worker_entry a d de s) = log (dir_worker_entry a d de t)
       \<and> unlimited (dirs_file (dir_worker_entry a d de s))
       \<and> unlimited (dirs_file (dir_worker_entry a d de t))"
  using assms by (simp add: dir_worker_entry_unlimited) (simp add: unlimited_def)

lemma dir_worker_fold_sim:
  assumes "dir_q s = dir_q t \<and> log s = log t \<and> unlimited (dirs_file s) \<and> unlimited (dirs_file t)"
  shows "dir_q (fold (dir_worker_entry a d) des s) = dir_q (fold (dir_worker_entry a d) des t)
       \<and> log (fold (dir_worker_entry a d) des s) = log (fold (dir_worker_entry a d) des t)
       \<and> unlimited (dirs_file (fold (dir_worker_entry a d) des s))
       \<and> unlimited (dirs_file (fold (dir_worker_entry a d) des t))"
  using assms
proof (induction des arbitrary: s t)
  case Nil
  then show ?case by simp
next
  case (Cons de des)
  from Cons.IH [OF dir_worker_entry_sim [OF Cons.prems, of a d de]]
  show ?case
    by simp
qed

lemma dir_worker_item_sim:
  assumes "dir_q s = dir_q t \<and> log s = log t \<and> unlimited (dirs_file s) \<and> unlimited (dirs_file t)"
  shows "dir_q (dir_worker_item a h d s) = dir_q (dir_worker_item a h d t)
       \<and> log (dir_worker_item a h d s) = log (dir_worker_item a h d t)
       \<and> unlimited (dirs_file (dir_worker_item a h d s))
       \<and> unlimited (dirs_file (dir_worker_item a h d t))"
proof (cases "scandir h d")
  case (Inl e)
  then show ?thesis using assms by (simp add: dir_worker_item_unfold)
next
  case (Inr des)
  have "dir_q (s\<lparr>log := log s @ [Dir_scan d]\<rparr>) = dir_q (t\<lparr>log := log t @ [Dir_scan d]\<rparr>)
      \<and> log (s\<lparr>log := log s @ [Dir_scan d]\<rparr>) = log (t\<lparr>log := log t @ [Dir_scan d]\<rparr>)
      \<and> unlimited (dirs_file (s\<lparr>log := log s @ [Dir_scan d]\<rparr>))
      \<and> unlimited (dirs_file (t\<lparr>log := log t @ [Dir_scan d]\<rparr>))"
    using assms by simp
  from dir_worker_fold_sim [OF this, of a d des] Inr
  show ?thesis by (simp add: dir_worker_item_unfold)
qed

lemma dir_worker_sim:
  assumes "dir_worker n a h s = Some s'" and "dir_worker m a h t = Some t'"
    and "dir_q s = dir_q t \<and> log s = log t \<and> unlimited (dirs_file s) \<and> unlimited (dirs_file t)"
  shows "log s' = log t' \<and> unlimited (dirs_file s') \<and> unlimited (dirs_file t')"
  using assms
proof (induction n arbitrary: m s t)
  case 0
  from "0.prems"(1) have q: "dir_q s = []" and s: "s' = s"
    by (subst (asm) dir_worker.simps, simp split: list.splits)+
  from "0.prems"(2,3) q have "t' = t"
    by (subst (asm) dir_worker.simps) simp
  then show ?case using s "0.prems"(3) by simp
next
  case (Suc n)
  show ?case
  proof (cases "dir_q s")
    case Nil
    from Suc.prems(1) Nil have s: "s' = s"
      by (subst (asm) dir_worker.simps) simp
    from Suc.prems(2,3) Nil have "t' = t"
      by (subst (asm) dir_worker.simps) simp
    then show ?thesis using s Suc.prems(3) by simp
  next
    case (Cons d q)
    then have qt: "dir_q t = d # q" using Suc.prems(3) by simp
    from Suc.prems(1) Cons have r1: "dir_worker n a h (dir_worker_item a h d (s\<lparr>dir_q := q\<rparr>)) = Some s'"
      by (subst (asm) dir_worker.simps) simp
    from Suc.prems(2) qt obtain m' where
      r2: "dir_worker m' a h (dir_worker_item a h d (t\<lparr>dir_q := q\<rparr>)) = Some t'"
      by (subst (asm) dir_worker.simps) (auto split: nat.splits)
    have "dir_q (s\<lparr>dir_q := q\<rparr>) = dir_q (t\<lparr>dir_q := q\<rparr>)
        \<and> log (s\<lparr>dir_q := q\<rparr>) = log (t\<lparr>dir_q := q\<rparr>)
        \<and> unlimited (dirs_file (s\<lparr>dir_q := q\<rparr>)) \<and> unlimited (dirs_file (t\<lparr>dir_q := q\<rparr>))"
      using Suc.prems(3) by simp
    from Suc.IH [OF r1 r2 dir_worker_item_sim [OF this]]
    show ?thesis .
  qed
qed

lemma choose_out_fixed:
  assumes "mode a \<noteq> RoundRobin" and "length (outs s) = length (outs t)"
  shows "choose_out a h r d s = (fst (choose_out a h r d t), s)"
  using assms by (simp add: choose_out_def Let_def)

lemma file_worker_entry_unlimited:
  assumes c: "open_unlimited N s" and n: "0 < N" and m: "mode a \<noteq> RoundRobin"
    and t: "length (outs t) = N"
  shows "file_worker_entry a h d de s =
     (if is_file_nofollow de = Inr True
      then s\<lparr>outs := (outs s)[fst (choose_out a h (rel_file d (name de)) d t) :=
                 (outs s ! fst (choose_out a h (rel_file d (name de)) d t))
                   \<lparr>content := content (outs s ! fst (choose_out a h (rel_file d (name de)) d t))
                                 @ rel_file d (name de) @ [NUL]\<rparr>],
             files_emitted := files_emitted s + 1,
             log := log s @ [Out_write (fst (choose_out a h (rel_file d (name de)) d t))
                                       (rel_file d (name de))]\<rparr>
      else s)"
proof -
  let ?r = "rel_file d (name de)"
  let ?k = "fst (choose_out a h ?r d t)"
  have l: "length (outs s) = length (outs t)"
    using c t by (simp add: open_unlimited_def)
  have ch: "choose_out a h ?r d s = (?k, s)"
    by (rule choose_out_fixed [OF m l])
  have "outs t \<noteq> []" using t n by auto
  from choose_out_bound [OF this, of a h ?r d] have k: "?k < length (outs s)"
    using l by simp
  then have "unlimited (outs s ! ?k)"
    using c by (simp add: open_unlimited_def)
  then have w: "fwrite (outs s ! ?k) (?r @ [NUL])
      = Inr ((outs s ! ?k)\<lparr>content := content (outs s ! ?k) @ ?r @ [NUL]\<rparr>)"
    by (simp add: fwrite_unlimited unlimited_def)
  show ?thesis
    using ch w
    by (auto simp: file_worker_entry_simp rel_file_def Let_def split: sum.splits)
qed

lemma file_worker_entry_sim:
  assumes s: "open_unlimited N s" and t: "open_unlimited N t" and n: "0 < N"
    and m: "mode a \<noteq> RoundRobin"
  shows "\<exists>evs. log (file_worker_entry a h d de s) = log s @ evs
             \<and> log (file_worker_entry a h d de t) = log t @ evs
             \<and> open_unlimited N (file_worker_entry a h d de s)
             \<and> open_unlimited N (file_worker_entry a h d de t)"
proof -
  have lt: "length (outs t) = N"
    using t by (simp add: open_unlimited_def)
  have keep: "open_unlimited N (x\<lparr>outs := (outs x)[k := (outs x ! k)\<lparr>content := c\<rparr>],
      files_emitted := fe, log := l\<rparr>)"
    if "open_unlimited N x" "k < N" for x :: state and k c fe l
  proof -
    have "unlimited ((outs x ! k)\<lparr>content := c\<rparr>)"
      using that by (simp add: open_unlimited_def unlimited_def)
    then show ?thesis
      using that by (auto simp: open_unlimited_def dest!: set_update_subset_insert [THEN subsetD])
  qed
  have "outs t \<noteq> []" using lt n by auto
  from choose_out_bound [OF this, of a h "rel_file d (name de)" d]
  have k: "fst (choose_out a h (rel_file d (name de)) d t) < N"
    using lt by simp
  show ?thesis
  proof (cases "is_file_nofollow de = Inr True")
    case True
    show ?thesis
      unfolding file_worker_entry_unlimited [OF s n m lt] file_worker_entry_unlimited [OF t n m lt]
      using True keep [OF s k] keep [OF t k] by simp
  next
    case False
    show ?thesis
      unfolding file_worker_entry_unlimited [OF s n m lt] file_worker_entry_unlimited [OF t n m lt]
      using False s t by simp
  qed
qed

lemma file_worker_fold_sim:
  assumes s: "open_unlimited N s" and t: "open_unlimited N t" and n: "0 < N"
    and m: "mode a \<noteq> RoundRobin"
  shows "\<exists>evs. log (fold (file_worker_entry a h d) des s) = log s @ evs
             \<and> log (fold (file_worker_entry a h d) des t) = log t @ evs
             \<and> open_unlimited N (fold (file_worker_entry a h d) des s)
             \<and> open_unlimited N (fold (file_worker_entry a h d) des t)"
  using s t
proof (induction des arbitrary: s t)
  case Nil
  then show ?case by simp
next
  case (Cons de des)
  from file_worker_entry_sim [OF Cons.prems n m, of h d de] obtain e1 where
    e1: "log (file_worker_entry a h d de s) = log s @ e1"
        "log (file_worker_entry a h d de t) = log t @ e1"
        "open_unlimited N (file_worker_entry a h d de s)"
        "open_unlimited N (file_worker_entry a h d de t)"
    by blast
  from Cons.IH [OF e1(3,4)] obtain e2 where
    e2: "log (fold (file_worker_entry a h d) des (file_worker_entry a h d de s))
           = log (file_worker_entry a h d de s) @ e2"
        "log (fold (file_worker_entry a h d) des (file_worker_entry a h d de t))
           = log (file_worker_entry a h d de t) @ e2"
        "open_unlimited N (fold (file_worker_entry a h d) des (file_worker_entry a h d de s))"
        "open_unlimited N (fold (file_worker_entry a h d) des (file_worker_entry a h d de t))"
    by blast
  have "log (fold (file_worker_entry a h d) (de # des) s) = log s @ (e1 @ e2)
      \<and> log (fold (file_worker_entry a h d) (de # des) t) = log t @ (e1 @ e2)
      \<and> open_unlimited N (fold (file_worker_entry a h d) (de # des) s)
      \<and> open_unlimited N (fold (file_worker_entry a h d) (de # des) t)"
    using e1 e2 by simp
  then show ?case by blast
qed

lemma file_worker_item_sim:
  assumes s: "open_unlimited N s" and t: "open_unlimited N t" and n: "0 < N"
    and m: "mode a \<noteq> RoundRobin"
  shows "\<exists>evs. log (file_worker_item a h d s) = log s @ evs
             \<and> log (file_worker_item a h d t) = log t @ evs
             \<and> open_unlimited N (file_worker_item a h d s)
             \<and> open_unlimited N (file_worker_item a h d t)"
proof (cases "scandir h (dir_abs a d)")
  case (Inl e)
  have "log (file_worker_item a h d s) = log s @ [File_scan (dir_abs a d)]
      \<and> log (file_worker_item a h d t) = log t @ [File_scan (dir_abs a d)]
      \<and> open_unlimited N (file_worker_item a h d s)
      \<and> open_unlimited N (file_worker_item a h d t)"
    using Inl s t by (simp add: file_worker_item_unfold open_unlimited_def)
  then show ?thesis by blast
next
  case (Inr des)
  let ?s = "s\<lparr>log := log s @ [File_scan (dir_abs a d)]\<rparr>"
  let ?t = "t\<lparr>log := log t @ [File_scan (dir_abs a d)]\<rparr>"
  have "open_unlimited N ?s" "open_unlimited N ?t"
    using s t by (simp_all add: open_unlimited_def)
  from file_worker_fold_sim [OF this n m, of h d des] obtain evs where
    e: "log (fold (file_worker_entry a h d) des ?s) = log ?s @ evs"
       "log (fold (file_worker_entry a h d) des ?t) = log ?t @ evs"
       "open_unlimited N (fold (file_worker_entry a h d) des ?s)"
       "open_unlimited N (fold (file_worker_entry a h d) des ?t)"
    by blast
  have "log (file_worker_item a h d s) = log s @ (File_scan (dir_abs a d) # evs)
      \<and> log (file_worker_item a h d t) = log t @ (File_scan (dir_abs a d) # evs)
      \<and> open_unlimited N (file_worker_item a h d s)
      \<and> open_unlimited N (file_worker_item a h d t)"
    using Inr e by (simp add: file_worker_item_unfold)
  then show ?thesis by blast
qed

lemma file_worker_log:
  assumes s: "open_unlimited N s" and t: "open_unlimited N t" and n: "0 < N"
    and m: "mode a \<noteq> RoundRobin"
  shows "log (file_worker a h ds s)
           = log s @ concat (map (\<lambda>d. drop (length (log t)) (log (file_worker_item a h d t))) ds)
       \<and> open_unlimited N (file_worker a h ds s)"
  using s
proof (induction ds arbitrary: s)
  case Nil
  then show ?case by (simp add: file_worker_def)
next
  case (Cons d ds)
  from file_worker_item_sim [OF Cons.prems t n m, of h d] obtain evs where
    e: "log (file_worker_item a h d s) = log s @ evs"
       "log (file_worker_item a h d t) = log t @ evs"
       "open_unlimited N (file_worker_item a h d s)"
    by blast
  have ev: "drop (length (log t)) (log (file_worker_item a h d t)) = evs"
    using e(2) by simp
  from Cons.IH [OF e(3)] have
    "log (file_worker a h ds (file_worker_item a h d s))
       = log (file_worker_item a h d s)
         @ concat (map (\<lambda>d. drop (length (log t)) (log (file_worker_item a h d t))) ds)"
    "open_unlimited N (file_worker a h ds (file_worker_item a h d s))"
    by simp_all
  then show ?case
    using e(1) ev by (simp add: file_worker_def)
qed

lemma out_records_concat:
  "set (out_records i (concat (map f ds))) = (\<Union>d \<in> set ds. set (out_records i (f d)))"
  by (induction ds) auto

lemma set_split_nul_terminated:
  "set (split_on_NUL [] (nul_terminated rs)) = (\<Union>r \<in> set rs. set (split_on_NUL [] (r @ [NUL])))"
proof (induction rs)
  case Nil
  then show ?case by simp
next
  case (Cons r rs)
  have "whole_records (r @ [NUL])"
    by (simp add: whole_records_def unterminated_append)
  from whole_records_split [OF this, of "nul_terminated rs"] Cons
  show ?case by simp
qed

lemma open_outputs_unlimited:
  assumes os: "open_outputs om od k dk = Inr os"
    and ul: "unlimited (manifest dk) \<and> (\<forall>i. unlimited (shard dk i))"
  shows "0 < length os \<and> (\<forall>f \<in> set os. unlimited f)"
proof -
  from open_outputs_Inr [OF os] have
    o: "0 < k \<longrightarrow> length os = nat k \<and> (\<forall>i < nat k. os ! i = shard dk i)"
       "k \<le> 0 \<longrightarrow> os = [manifest dk]"
    by simp_all
  show ?thesis
  proof (cases "0 < k")
    case True
    then have l: "length os = nat k" and e: "\<forall>i < nat k. os ! i = shard dk i"
      using o by simp_all
    have "\<forall>f \<in> set os. unlimited f"
    proof
      fix f assume "f \<in> set os"
      then obtain i where "i < length os" "os ! i = f"
        by (auto simp: in_set_conv_nth)
      then show "unlimited f" using l e ul by auto
    qed
    then show ?thesis using True l by simp
  next
    case False
    then show ?thesis using o ul by simp
  qed
qed

lemma run_phase2_log:
  assumes c: "course fuel a h dk st f1 st2 os ds p2"
    and md: "mode a \<noteq> RoundRobin"
    and ul: "unlimited (manifest dk) \<and> (\<forall>i. unlimited (shard dk i))"
    and t: "open_unlimited (length os) t"
  shows "out_records i (log st)
           = out_records i (concat (map (\<lambda>d. drop (length (log t)) (log (file_worker_item a h d t))) ds))"
    and "open_unlimited (length os) (state_listing st2 os ds)"
    and "\<forall>f \<in> set (outs st). unlimited f"
proof -
  from c have os: "open_outputs (out_manifest a) (outdir a) (shards a) dk = Inr os"
    and st: "st = (file_worker a h ds (state_listing st2 os ds))
              \<lparr>log := log (file_worker a h ds (state_listing st2 os ds)) @ [Outs_closed]\<rparr>"
    and e1: "\<forall>e \<in> set (log st2). phase1_event e"
    unfolding course_def by blast+
  from open_outputs_unlimited [OF os ul] have n: "0 < length os" and u: "\<forall>f \<in> set os. unlimited f"
    by simp_all
  show s3: "open_unlimited (length os) (state_listing st2 os ds)"
    using u by (simp add: open_unlimited_def state_listing_def)
  from file_worker_log [OF s3 t n md, of h ds] have
    lg: "log (file_worker a h ds (state_listing st2 os ds))
           = log (state_listing st2 os ds)
             @ concat (map (\<lambda>d. drop (length (log t)) (log (file_worker_item a h d t))) ds)"
    and cl: "open_unlimited (length os) (file_worker a h ds (state_listing st2 os ds))"
    by simp_all
  have o3: "out_records i (log (state_listing st2 os ds)) = []"
  proof -
    have "out_records i (map Dir_in_put ds) = []"
      by (induction ds) auto
    then show ?thesis
      using phase1_no_out_records [OF e1] by (simp add: state_listing_def)
  qed
  have "out_records i (log st) = out_records i (log (file_worker a h ds (state_listing st2 os ds)))"
    by (subst st) simp
  then show "out_records i (log st)
           = out_records i (concat (map (\<lambda>d. drop (length (log t)) (log (file_worker_item a h d t))) ds))"
    using lg o3 by simp
  have "outs st = outs (file_worker a h ds (state_listing st2 os ds))"
    by (subst st) simp
  then show "\<forall>f \<in> set (outs st). unlimited f"
    using cl by (simp add: open_unlimited_def)
qed

lemma outputs_content:
  assumes "main fuel a h dk = Some (Inr st)"
  shows "content (dirs_file st)
           = content (dirs_nul dk) @ nul_terminated (ledger_records (log st))"
proof -
  from run_course [OF assms] obtain f1 st2 os ds p2 where
    "course fuel a h dk st f1 st2 os ds p2"
    by blast
  then have c1: "content (dirs_file st2)
        = content (dirs_nul dk) @ nul_terminated (ledger_records (log st2))"
    and df: "dirs_file st = dirs_file st2"
    and lg: "log st = log st2 @ [Workers1_joined, Ledger_closed] @ p2"
    and pe: "\<forall>e \<in> set p2. phase2_event e"
    unfolding course_def by blast+
  have "ledger_records (log st) = ledger_records (log st2)"
    using lg phase2_no_ledger_records [OF pe] by simp
  then show ?thesis
    using c1 df by simp
qed

lemma rerun_outputs_reopened:
  assumes o1: "open_outputs om od k dk = Inr os1"
    and l1: "length (outs st1) = length os1"
    and o2: "open_outputs om od k (disk_after a dk st1) = Inr os2"
    and k: "k = shards a"
  shows "os2 = outs st1"
proof (cases "0 < k")
  case True
  from open_outputs_Inr [OF o1] True have n1: "length os1 = nat k" by simp
  from open_outputs_Inr [OF o2] True have n2: "length os2 = nat k"
    and e2: "\<forall>i < nat k. os2 ! i = shard (disk_after a dk st1) i"
    by simp_all
  show ?thesis
  proof (rule nth_equalityI)
    show "length os2 = length (outs st1)" using n1 n2 l1 by simp
  next
    fix i assume "i < length os2"
    then show "os2 ! i = outs st1 ! i"
      using e2 n2 True k by (simp add: disk_after_def)
  qed
next
  case False
  from open_outputs_Inr [OF o1] False have "os1 = [manifest dk]" by simp
  then have "length (outs st1) = 1" using l1 by simp
  then obtain x where x: "outs st1 = [x]"
    by (cases "outs st1") auto
  from open_outputs_Inr [OF o2] False have "os2 = [manifest (disk_after a dk st1)]" by simp
  then show ?thesis
    using False k x by (simp add: disk_after_def)
qed

lemma disk_after_unlimited:
  assumes u: "\<forall>f \<in> set (outs st1). unlimited f"
    and ul: "unlimited (manifest dk) \<and> (\<forall>i. unlimited (shard dk i))"
    and o1: "open_outputs om od (shards a) dk = Inr os1"
    and l1: "length (outs st1) = length os1"
  shows "unlimited (manifest (disk_after a dk st1)) \<and> (\<forall>i. unlimited (shard (disk_after a dk st1) i))"
proof (cases "0 < shards a")
  case True
  from open_outputs_Inr [OF o1] True have "length os1 = nat (shards a)" by simp
  then have "\<forall>i < nat (shards a). unlimited (outs st1 ! i)"
    using u l1 by simp
  then show ?thesis
    using True ul by (simp add: disk_after_def)
next
  case False
  from open_outputs_Inr [OF o1] False have "os1 = [manifest dk]" by simp
  then have "length (outs st1) = 1" using l1 by simp
  then have "unlimited (outs st1 ! 0)" using u by simp
  then show ?thesis
    using False ul by (simp add: disk_after_def)
qed

lemma rerun_same_dirs:
  assumes r1: "main n a h dk = Some (Inr st1)"
    and r2: "main m a h (disk_after a dk st1) = Some (Inr st2)"
    and same: "ledger_records (log st2) = ledger_records (log st1)"
    and wr: "whole_records (content (dirs_nul dk))"
  shows "set (dirs_in_put (log st2)) = set (dirs_in_put (log st1))"
proof -
  let ?L0 = "content (dirs_nul dk)"
  let ?W = "nul_terminated (ledger_records (log st1))"
  have c: "content (dirs_nul (disk_after a dk st1)) = ?L0 @ ?W"
    using outputs_content [OF r1] by (simp add: disk_after_def)
  have w1: "whole_records (?L0 @ ?W)"
    by (rule whole_records_append [OF wr whole_records_nul_terminated])
  have s2: "split_on_NUL [] ((?L0 @ ?W) @ ?W) = split_on_NUL [] (?L0 @ ?W) @ split_on_NUL [] ?W"
    by (rule whole_records_split [OF w1])
  have s1: "split_on_NUL [] (?L0 @ ?W) = split_on_NUL [] ?L0 @ split_on_NUL [] ?W"
    by (rule whole_records_split [OF wr])
  have d1: "dirs_in_put (log st1)
      = map (\<lambda>r. if r = [] then ''.'' else r) (split_on_NUL [] (?L0 @ ?W))"
    by (rule run_dirs_in_put(1) [OF r1])
  have d2: "dirs_in_put (log st2)
      = map (\<lambda>r. if r = [] then ''.'' else r) (split_on_NUL [] ((?L0 @ ?W) @ ?W))"
    using run_dirs_in_put(1) [OF r2] c same by simp
  show ?thesis
    unfolding d1 d2 s2 unfolding s1 by auto
qed

subsection \<open>The partition is reproducible\<close>

text \<open>
  C2. In mode \<^verbatim>\<open>bydir\<close> or \<^verbatim>\<open>hash\<close>, a second run on the same tree with the same arguments,
  started on the files the first run left, returns with the same number of outputs, and
  each output holds the same set of relative paths as after the first run. The devices
  refuse no write, and the files the first run found held whole records.
\<close>

theorem rerun_same_partition:
  assumes r1: "main n a h dk = Some (Inr st1)"
    and r2: "main m a h (disk_after a dk st1) = Some (Inr st2)"
    and md: "mode a = ByDir \<or> mode a = Hash"
    and ul: "unlimited (dirs_nul dk) \<and> unlimited (manifest dk) \<and> (\<forall>i. unlimited (shard dk i))"
    and wr: "whole_records (content (dirs_nul dk)) \<and> whole_records (content (manifest dk))
             \<and> (\<forall>i. whole_records (content (shard dk i)))"
  shows "length (outs st2) = length (outs st1)
       \<and> (\<forall>i < length (outs st1).
            set (split_on_NUL [] (content (outs st2 ! i)))
              = set (split_on_NUL [] (content (outs st1 ! i))))"
proof -
  let ?dk' = "disk_after a dk st1"
  have mr: "mode a \<noteq> RoundRobin" using md by auto
  from run_course [OF r1] obtain f1 s1 os1 ds1 p1 where
    c1: "course n a h dk st1 f1 s1 os1 ds1 p1"
    by blast
  from run_course [OF r2] obtain f2 s2 os2 ds2 p2 where
    c2: "course m a h ?dk' st2 f2 s2 os2 ds2 p2"
    by blast
  from c1 have fw1: "fwrite (dirs_nul dk) (''.'' @ [NUL]) = Inr f1"
    and w1: "dir_worker n a h (state_seeded a f1) = Some s1"
    and o1: "open_outputs (out_manifest a) (outdir a) (shards a) dk = Inr os1"
    and df1: "dirs_file st1 = dirs_file s1"
    and l1: "length (outs st1) = length os1"
    and oc1: "\<forall>i < length os1. content (outs st1 ! i)
           = content (os1 ! i) @ nul_terminated (out_records i (log st1))"
    and lg1: "log st1 = log s1 @ [Workers1_joined, Ledger_closed] @ p1"
    and pe1: "\<forall>e \<in> set p1. phase2_event e"
    and e1: "\<forall>e \<in> set (log s1). phase1_event e"
    and dp1: "dirs_in_put p1 = ds1"
    unfolding course_def by blast+
  from c2 have fw2: "fwrite (dirs_nul ?dk') (''.'' @ [NUL]) = Inr f2"
    and w2: "dir_worker m a h (state_seeded a f2) = Some s2"
    and o2: "open_outputs (out_manifest a) (outdir a) (shards a) ?dk' = Inr os2"
    and l2: "length (outs st2) = length os2"
    and oc2: "\<forall>i < length os2. content (outs st2 ! i)
           = content (os2 ! i) @ nul_terminated (out_records i (log st2))"
    and lg2: "log st2 = log s2 @ [Workers1_joined, Ledger_closed] @ p2"
    and pe2: "\<forall>e \<in> set p2. phase2_event e"
    and e2: "\<forall>e \<in> set (log s2). phase1_event e"
    and dp2: "dirs_in_put p2 = ds2"
    unfolding course_def by blast+
  \<comment> \<open>phase 1 logs the same in both runs\<close>
  have uf1: "unlimited f1"
    using fwrite_Inr [OF fw1] ul by (simp add: unlimited_def)
  have sd1: "dir_q (state_seeded a f1) = dir_q (state_seeded a f1)
      \<and> log (state_seeded a f1) = log (state_seeded a f1)
      \<and> unlimited (dirs_file (state_seeded a f1)) \<and> unlimited (dirs_file (state_seeded a f1))"
    using uf1 by (simp add: state_seeded_def)
  from dir_worker_sim [OF w1 w1 sd1] have us1: "unlimited (dirs_file s1)"
    by simp
  have "dirs_nul ?dk' = dirs_file s1"
    using df1 by (simp add: disk_after_def)
  then have uf2: "unlimited f2"
    using fwrite_Inr [OF fw2] us1 by (simp add: unlimited_def)
  have sd2: "dir_q (state_seeded a f1) = dir_q (state_seeded a f2)
      \<and> log (state_seeded a f1) = log (state_seeded a f2)
      \<and> unlimited (dirs_file (state_seeded a f1)) \<and> unlimited (dirs_file (state_seeded a f2))"
    using uf1 uf2 by (simp add: state_seeded_def)
  from dir_worker_sim [OF w1 w2 sd2] have ls: "log s1 = log s2"
    by simp
  have lr: "ledger_records (log st2) = ledger_records (log st1)"
    using lg1 lg2 ls phase2_no_ledger_records [OF pe1] phase2_no_ledger_records [OF pe2] by simp
  \<comment> \<open>phase 2 lists the same directories\<close>
  have sds: "set (dirs_in_put (log st2)) = set (dirs_in_put (log st1))"
    using rerun_same_dirs [OF r1 r2 lr] wr by simp
  have d1: "dirs_in_put (log st1) = ds1"
    using lg1 dp1 phase1_no_out_records [OF e1] by simp
  have d2: "dirs_in_put (log st2) = ds2"
    using lg2 dp2 phase1_no_out_records [OF e2] by simp
  have sd: "set ds2 = set ds1"
    using sds d1 d2 by simp
  \<comment> \<open>the outputs the second run opens are those the first run left\<close>
  have ulo: "unlimited (manifest dk) \<and> (\<forall>i. unlimited (shard dk i))"
    using ul by simp
  let ?t = "state_listing s1 os1 ds1"
  have t1: "open_unlimited (length os1) ?t"
    using open_outputs_unlimited [OF o1 ulo] by (simp add: open_unlimited_def state_listing_def)
  note p1 = run_phase2_log [OF c1 mr ulo t1]
  have os2: "os2 = outs st1"
    by (rule rerun_outputs_reopened [OF o1 l1 o2 refl])
  have n2: "length os2 = length os1"
    using os2 l1 by simp
  have ul2: "unlimited (manifest ?dk') \<and> (\<forall>i. unlimited (shard ?dk' i))"
    by (rule disk_after_unlimited [OF p1(3) ulo o1 l1])
  have t2: "open_unlimited (length os2) ?t"
    using t1 n2 by simp
  note p2 = run_phase2_log [OF c2 mr ul2 t2]
  let ?ev = "\<lambda>d. drop (length (log ?t)) (log (file_worker_item a h d ?t))"
  have x: "set (out_records i (log st2)) = set (out_records i (log st1))" for i
    unfolding p1(1) p2(1) out_records_concat using sd by simp
  \<comment> \<open>the files\<close>
  have len: "length (outs st2) = length (outs st1)"
    using l2 os2 by simp
  have "set (split_on_NUL [] (content (outs st2 ! i)))
      = set (split_on_NUL [] (content (outs st1 ! i)))" if i: "i < length (outs st1)" for i
  proof -
    let ?c0 = "content (os1 ! i)"
    let ?X1 = "out_records i (log st1)"
    let ?X2 = "out_records i (log st2)"
    have w0: "whole_records ?c0"
    proof (cases "0 < shards a")
      case True
      with open_outputs_Inr [OF o1] i l1 have "os1 ! i = shard dk i" by simp
      then show ?thesis using wr by simp
    next
      case False
      with open_outputs_Inr [OF o1] have "os1 = [manifest dk]" by simp
      then show ?thesis using wr i l1 by simp
    qed
    have k1: "content (outs st1 ! i) = ?c0 @ nul_terminated ?X1"
      using oc1 i l1 by simp
    have k2: "content (outs st2 ! i) = (?c0 @ nul_terminated ?X1) @ nul_terminated ?X2"
      using oc2 i l1 n2 os2 k1 by simp
    have w1: "whole_records (?c0 @ nul_terminated ?X1)"
      by (rule whole_records_append [OF w0 whole_records_nul_terminated])
    have "set (split_on_NUL [] (nul_terminated ?X2)) = set (split_on_NUL [] (nul_terminated ?X1))"
      by (simp add: set_split_nul_terminated x)
    then show ?thesis
      unfolding k1 k2 whole_records_split [OF w1] whole_records_split [OF w0] by auto
  qed
  then show ?thesis
    using len by simp
qed

lemma ex_item_root:
  "file_worker_item ex_args ex_host ''.''
     \<lparr>dirs_file = df, dirs_emitted = k, dir_q = [],
      outs = [\<lparr>content = c0, room = None\<rparr>, \<lparr>content = c1, room = None\<rparr>],
      rr_counter = 0, files_emitted = fe, log = l\<rparr>
   = \<lparr>dirs_file = df, dirs_emitted = k, dir_q = [],
      outs = [\<lparr>content = c0 @ [CHR ''f'', NUL], room = None\<rparr>, \<lparr>content = c1, room = None\<rparr>],
      rr_counter = 0, files_emitted = Suc fe,
      log = l @ [File_scan ''/r'', Out_write 0 ''f'']\<rparr>"
  by (simp add: file_worker_item_def file_worker_entry_simp ex_choose fwrite_def
      ex_fields ex_host_fields ent_dir_def ent_file_def ent_denied_def Let_def)

lemma ex_item_a:
  "file_worker_item ex_args ex_host ''a''
     \<lparr>dirs_file = df, dirs_emitted = k, dir_q = [],
      outs = [\<lparr>content = c0, room = None\<rparr>, \<lparr>content = c1, room = None\<rparr>],
      rr_counter = 0, files_emitted = fe, log = l\<rparr>
   = \<lparr>dirs_file = df, dirs_emitted = k, dir_q = [],
      outs = [\<lparr>content = c0, room = None\<rparr>,
              \<lparr>content = c1 @ [CHR ''a'', sep, CHR ''x'', NUL], room = None\<rparr>],
      rr_counter = 0, files_emitted = Suc fe,
      log = l @ [File_scan ''/r/a'', Out_write (Suc 0) ''a/x'']\<rparr>"
  by (simp add: file_worker_item_def file_worker_entry_simp ex_choose fwrite_def
      ex_fields ex_host_fields ent_dir_def ent_file_def ent_denied_def Let_def os_path_join_def)

lemma ex_disk_after:
  "dirs_nul (disk_after ex_args ex_disk ex_final)
     = \<lparr>content = [CHR ''.'', NUL, CHR ''a'', NUL], room = None\<rparr>"
  "open_outputs (out_manifest ex_args) (outdir ex_args) (shards ex_args)
       (disk_after ex_args ex_disk ex_final)
     = Inr [\<lparr>content = [CHR ''f'', NUL], room = None\<rparr>,
            \<lparr>content = [CHR ''a'', sep, CHR ''x'', NUL], room = None\<rparr>]"
  by (simp_all add: disk_after_def ex_final_def open_outputs_def fopen_def ex_fields upt_0_2)

lemma ex_phase1_again:
  "dir_worker 2 ex_args ex_host
     \<lparr>dirs_file = \<lparr>content = [CHR ''.'', NUL, CHR ''a'', NUL, CHR ''.'', NUL], room = None\<rparr>,
      dirs_emitted = Suc 0,
      dir_q = [''/r''], outs = [], rr_counter = 0, files_emitted = 0,
      log = [Ledger_write ''.'', Dir_put ''/r'']\<rparr>
   = Some \<lparr>dirs_file = \<lparr>content = [CHR ''.'', NUL, CHR ''a'', NUL, CHR ''.'', NUL, CHR ''a'', NUL],
                          room = None\<rparr>,
      dirs_emitted = Suc (Suc 0), dir_q = [], outs = [], rr_counter = 0, files_emitted = 0,
      log = [Ledger_write ''.'', Dir_put ''/r'', Dir_scan ''/r'', Ledger_write ''a'',
             Dir_put ''/r/a'', Dir_scan ''/r/a'']\<rparr>"
  by (simp add: dir_worker.simps dir_worker_item_def dir_worker_entry_def emit_dir_simp fwrite_def
      ex_fields ex_host_fields ent_dir_def ent_file_def ent_denied_def ex_relpath_a
      os_path_join_def)

lemma ex_read_again:
  "read_ledger \<lparr>content = [CHR ''.'', NUL, CHR ''a'', NUL, CHR ''.'', NUL, CHR ''a'', NUL],
                room = None\<rparr> = Inr [''.'', ''a'', ''.'', ''a'']"
  by (simp add: read_ledger_eq decode_def byte_in_def)

lemma ex_phase2_again:
  "main_phase2 ex_args ex_host (disk_after ex_args ex_disk ex_final)
     \<lparr>dirs_file = \<lparr>content = [CHR ''.'', NUL, CHR ''a'', NUL, CHR ''.'', NUL, CHR ''a'', NUL],
                   room = None\<rparr>,
      dirs_emitted = Suc (Suc 0), dir_q = [], outs = [], rr_counter = 0, files_emitted = 0,
      log = [Ledger_write ''.'', Dir_put ''/r'', Dir_scan ''/r'', Ledger_write ''a'',
             Dir_put ''/r/a'', Dir_scan ''/r/a'', Workers1_joined, Ledger_closed]\<rparr>
   = Inr ex_rerun"
  by (simp add: main_phase2_def ex_disk_after ex_read_again file_worker_def ex_item_root ex_item_a
      ex_rerun_def)

lemma ex_run_again:
  "main 2 ex_args ex_host (disk_after ex_args ex_disk ex_final) = Some (Inr ex_rerun)"
  by (simp add: main_def ex_fields ex_host_fields emit_dir_simp fwrite_def fopen_def
      ex_disk_after ex_phase1_again ex_phase2_again)

theorem rerun_same_partition_witness:
  "main 2 ex_args ex_host ex_disk = Some (Inr ex_final)
   \<and> main 2 ex_args ex_host (disk_after ex_args ex_disk ex_final) = Some (Inr ex_rerun)
   \<and> mode ex_args = ByDir
   \<and> length (outs ex_rerun) = length (outs ex_final)
   \<and> set (split_on_NUL [] (content (outs ex_rerun ! 0)))
       = set (split_on_NUL [] (content (outs ex_final ! 0)))
   \<and> set (split_on_NUL [] (content (outs ex_rerun ! 1)))
       = set (split_on_NUL [] (content (outs ex_final ! 1)))"
proof -
  have md: "mode ex_args = ByDir \<or> mode ex_args = Hash"
    by (simp add: ex_fields)
  have ul: "unlimited (dirs_nul ex_disk) \<and> unlimited (manifest ex_disk)
      \<and> (\<forall>i. unlimited (shard ex_disk i))"
    by (simp add: ex_disk_fields unlimited_def)
  have wr: "whole_records (content (dirs_nul ex_disk)) \<and> whole_records (content (manifest ex_disk))
      \<and> (\<forall>i. whole_records (content (shard ex_disk i)))"
    by (simp add: ex_disk_fields whole_records_def)
  note t = rerun_same_partition [OF ex_run ex_run_again md ul wr]
  have l: "length (outs ex_final) = 2"
    by (simp add: ex_final_def)
  from t have 0: "set (split_on_NUL [] (content (outs ex_rerun ! 0)))
       = set (split_on_NUL [] (content (outs ex_final ! 0)))"
    using l by simp
  from t have 1: "set (split_on_NUL [] (content (outs ex_rerun ! 1)))
       = set (split_on_NUL [] (content (outs ex_final ! 1)))"
    using l by simp
  show ?thesis
    using t 0 1 ex_run ex_run_again by (simp add: ex_fields)
qed

end
